theory Spec2Isabelle
  imports Complex_Main
begin

section \<open>Road network growth: the three generator scripts\<close>

text \<open>
  The repository holds three variants of one class \<open>InfiniteCityGenerator\<close>:
  \<^item> \<^verbatim>\<open>normal_city_unplanned.py\<close> (names ending in \<open>_u\<close>): node positions in a dict, a
    second dict from positions to ids, the KD-tree rebuilt after every tenth insertion;
  \<^item> \<^verbatim>\<open>normal_city_unplanned_enhance.py\<close> (names ending in \<open>_e\<close>): node positions in a
    list, the KD-tree rebuilt lazily through the flag \<open>kd_tree_dirty\<close>;
  \<^item> \<^verbatim>\<open>Simcity_surburbs.py\<close> (names ending in \<open>_s\<close>): as the second, with candidates
    snapped to a grid, a validity threshold of \<open>0.9 * min_distance\<close> and three radii.

  Conventions of the embedding.
  \<^item> Python floats are idealised as real numbers.
  \<^item> \<open>min_distance\<close> and \<open>grid_size\<close> are assigned once in \<open>__init__\<close> (0.03) and never
    written again: they are constants here.
  \<^item> The object's mutable attributes are a record that every method takes and returns.
    The networkx graph and the matplotlib attributes are written but never read by the
    growth code and are left out.
  \<^item> A \<open>KDTree\<close> is the list of points it was built from; \<open>None\<close> is the attribute before
    the first build. A query returns the least distance and the index of a nearest point.
  \<^item> The random generator is an argument: the raw draws of one \<open>grow_city\<close> call.
  \<^item> An exception is a value \<open>Inl e\<close>.
\<close>

subsection \<open>Geometry and the KD-tree query\<close>

type_synonym position = "real \<times> real"

datatype py_error = IndexError | KeyError | AttributeError

definition min_distance :: real where
  "min_distance = 3 / 100"

definition grid_size :: real where
  "grid_size = min_distance"

definition euclid :: "position \<Rightarrow> position \<Rightarrow> real" where
  "euclid p q = sqrt ((fst p - fst q)\<^sup>2 + (snd p - snd q)\<^sup>2)"

text \<open>
  \<open>KDTree(points).query([pos], k=1)\<close>: the distance to a nearest point and its index
  (the first one among equidistant points). Over no points scipy reports an infinite
  distance, which is \<open>None\<close> here; the scripts never build a tree over no points.
\<close>

fun nearest :: "position list \<Rightarrow> position \<Rightarrow> (real \<times> nat) option" where
  "nearest [] q = None"
| "nearest (p # ps) q =
     (case nearest ps q of
        None \<Rightarrow> Some (euclid p q, 0)
      | Some (d, i) \<Rightarrow> if euclid p q \<le> d then Some (euclid p q, 0) else Some (d, Suc i))"

text \<open>\<open>distance[0] >= bound\<close> for the distance a query returns.\<close>

definition far_enough :: "position list \<Rightarrow> position \<Rightarrow> real \<Rightarrow> bool" where
  "far_enough ps q bound =
     (case nearest ps q of None \<Rightarrow> True | Some (d, i) \<Rightarrow> bound \<le> d)"

text \<open>\<open>np.linspace(start, stop, num)\<close> for \<open>num > 1\<close>.\<close>

definition linspace :: "real \<Rightarrow> real \<Rightarrow> nat \<Rightarrow> real list" where
  "linspace start stop num =
     map (\<lambda>i. start + real i * ((stop - start) / real (num - 1))) [0..<num]"

text \<open>The point at distance \<open>d\<close> from \<open>base_pos\<close> in direction \<open>angle\<close>.\<close>

definition polar :: "position \<Rightarrow> real \<Rightarrow> real \<Rightarrow> position" where
  "polar base_pos angle d = (fst base_pos + d * cos angle, snd base_pos + d * sin angle)"

subsection \<open>Random draws\<close>

text \<open>
  The raw outcomes one \<open>grow_city\<close> call may consume: \<open>pick\<close> for the recovery choice,
  \<open>count\<close> for the number of attempts, and for the \<open>i\<close>-th attempt \<open>angles i\<close> (the uniform
  angle) or, in the Simcity script, \<open>bases i\<close> (the choice among the four cardinal directions)
  and \<open>noises i\<close> (the Gaussian deviation). Every real is allowed as an angle or a deviation,
  which covers the values the generators can return.
\<close>

record draws =
  pick :: nat
  count :: nat
  angles :: "nat \<Rightarrow> real"
  bases :: "nat \<Rightarrow> nat"
  noises :: "nat \<Rightarrow> real"

text \<open>\<open>rng.integers(lo, hi)\<close>: an integer in \<open>[lo, hi)\<close>.\<close>

definition rng_integers :: "nat \<Rightarrow> nat \<Rightarrow> nat \<Rightarrow> nat" where
  "rng_integers lo hi raw = lo + raw mod (hi - lo)"

text \<open>\<open>random.randint(a, b)\<close>: an integer in \<open>[a, b]\<close>.\<close>

definition randint :: "nat \<Rightarrow> nat \<Rightarrow> nat \<Rightarrow> nat" where
  "randint a b raw = a + raw mod (b - a + 1)"

text \<open>\<open>random.choice(xs)\<close> and \<open>rng.choice(xs)\<close> on a non-empty list.\<close>

definition choice :: "'a list \<Rightarrow> nat \<Rightarrow> 'a" where
  "choice xs raw = xs ! (raw mod length xs)"

subsection \<open>State shared by the three scripts, and \<open>_add_road\<close>\<close>

record city =
  road_ages :: "((nat \<times> nat) \<times> nat) list"
  growth_queue :: "nat list"
  current_time :: nat
  kd_tree :: "position list option"

text \<open>
  \<open>road_ages\<close> is a dict: the list of its items in insertion order. \<open>_add_road\<close> is the
  same text in the three files.
\<close>

definition add_road :: "'a city_scheme \<Rightarrow> nat \<Rightarrow> nat \<Rightarrow> 'a city_scheme" where
  "add_road s node1 node2 =
     (if node1 = node2 then s
      else let road_id = (min node1 node2, max node1 node2) in
        if map_of (road_ages s) road_id = None
        then s\<lparr>road_ages := road_ages s @ [(road_id, current_time s)]\<rparr>
        else s)"

subsection \<open>normal\_city\_unplanned\_enhance.py\<close>

record city_e = city +
  node_positions :: "position list"
  kd_tree_dirty :: bool

definition update_spatial_index :: "city_e \<Rightarrow> city_e" where
  "update_spatial_index s =
     (if node_positions s \<noteq> [] then s\<lparr>kd_tree := Some (node_positions s)\<rparr> else s)
       \<lparr>kd_tree_dirty := False\<rparr>"

text \<open>The two lines \<open>if self.kd_tree_dirty: self._update_spatial_index()\<close>.\<close>

definition refresh :: "city_e \<Rightarrow> city_e" where
  "refresh s = (if kd_tree_dirty s then update_spatial_index s else s)"

definition is_valid_position_e :: "city_e \<Rightarrow> position \<Rightarrow> bool \<times> city_e" where
  "is_valid_position_e s pos =
     (let s1 = refresh s in
      case kd_tree s1 of
        None \<Rightarrow> (True, s1)
      | Some tree \<Rightarrow> (far_enough tree pos min_distance, s1))"

text \<open>The loop of \<open>_find_valid_position\<close> over the candidate positions.\<close>

fun first_valid_e :: "city_e \<Rightarrow> position list \<Rightarrow> position option \<times> city_e" where
  "first_valid_e s [] = (None, s)"
| "first_valid_e s (pos # rest) =
     (case is_valid_position_e s pos of
        (True, s1) \<Rightarrow> (Some pos, s1)
      | (False, s1) \<Rightarrow> first_valid_e s1 rest)"

definition find_valid_position_e :: "city_e \<Rightarrow> position \<Rightarrow> real \<Rightarrow> position option \<times> city_e" where
  "find_valid_position_e s base_pos angle =
     (let distances = linspace min_distance (2 * min_distance) 5;
          positions = map (polar base_pos angle) distances
      in first_valid_e s positions)"

definition add_node_e :: "city_e \<Rightarrow> position \<Rightarrow> nat option \<times> city_e" where
  "add_node_e s pos =
     (case is_valid_position_e s pos of
        (False, s1) \<Rightarrow> (None, s1)
      | (True, s1) \<Rightarrow>
          let node_id = length (node_positions s1) in
          (Some node_id,
           s1\<lparr>node_positions := node_positions s1 @ [pos],
              growth_queue := growth_queue s1 @ [node_id],
              kd_tree_dirty := True\<rparr>))"

text \<open>
  The merge-or-create part of the loop body, after the rebuild: \<open>tree\<close> is the tree the
  query reads.
\<close>

definition merge_or_create_e :: "city_e \<Rightarrow> nat \<Rightarrow> position \<Rightarrow> position list \<Rightarrow> city_e" where
  "merge_or_create_e s node_id new_pos tree =
     (let create =
        (case add_node_e s new_pos of
           (None, s1) \<Rightarrow> s1
         | (Some new_node_id, s1) \<Rightarrow> add_road s1 node_id new_node_id)
      in case nearest tree new_pos of
           None \<Rightarrow> create
         | Some (dst, idx) \<Rightarrow>
             if dst < min_distance * (1 / 2) then add_road s node_id idx else create)"

text \<open>One iteration of the \<open>for\<close> loop of \<open>grow_city\<close>, for the angle drawn.\<close>

definition attempt_e :: "nat \<Rightarrow> position \<Rightarrow> real \<Rightarrow> city_e \<Rightarrow> py_error + city_e" where
  "attempt_e node_id pos angle s =
     (case find_valid_position_e s pos angle of
        (None, s1) \<Rightarrow> Inr s1
      | (Some new_pos, s1) \<Rightarrow>
          (let s2 = refresh s1 in
           (case kd_tree s2 of
              None \<Rightarrow> Inl AttributeError
            | Some tree \<Rightarrow> Inr (merge_or_create_e s2 node_id new_pos tree))))"

fun attempts_e :: "nat \<Rightarrow> position \<Rightarrow> real list \<Rightarrow> city_e \<Rightarrow> py_error + city_e" where
  "attempts_e node_id pos [] s = Inr s"
| "attempts_e node_id pos (angle # rest) s =
     (case attempt_e node_id pos angle s of
        Inl e \<Rightarrow> Inl e
      | Inr s1 \<Rightarrow> attempts_e node_id pos rest s1)"

definition grow_city_e :: "city_e \<Rightarrow> draws \<Rightarrow> py_error + city_e" where
  "grow_city_e s d =
     (if growth_queue s = [] then
        (if node_positions s \<noteq> []
         then Inr (s\<lparr>growth_queue := [rng_integers 0 (length (node_positions s)) (pick d)]\<rparr>)
         else Inr s)
      else
        let s1 = s\<lparr>current_time := current_time s + 1\<rparr>;
            node_id = hd (growth_queue s1);
            s2 = s1\<lparr>growth_queue := tl (growth_queue s1)\<rparr>
        in if length (node_positions s2) \<le> node_id then Inl IndexError
           else
             let pos = node_positions s2 ! node_id in
             attempts_e node_id pos (map (angles d) [0..<rng_integers 1 4 (count d)]) s2)"

text \<open>\<open>__init__\<close>: the attributes as first assigned, then \<open>_add_node((0.0, 0.0))\<close>.\<close>

definition empty_e :: city_e where
  "empty_e = \<lparr>road_ages = [], growth_queue = [], current_time = 0, kd_tree = None,
              node_positions = [], kd_tree_dirty = False\<rparr>"

definition init_e :: city_e where
  "init_e = snd (add_node_e empty_e (0, 0))"

text \<open>A driver loop: \<open>grow_city\<close> once for each element of a list of draws.\<close>

fun run_e :: "city_e \<Rightarrow> draws list \<Rightarrow> py_error + city_e" where
  "run_e s [] = Inr s"
| "run_e s (d # ds) =
     (case grow_city_e s d of Inl e \<Rightarrow> Inl e | Inr s1 \<Rightarrow> run_e s1 ds)"

subsection \<open>Simcity\_surburbs.py\<close>

text \<open>
  The attributes are those of the previous script (\<open>grid_size\<close> is a constant), and
  \<open>_update_spatial_index\<close> is the same text. Python's \<open>round\<close> rounds a half to the even
  neighbour.
\<close>

definition py_round :: "real \<Rightarrow> int" where
  "py_round x =
     (let f = \<lfloor>x\<rfloor>; r = x - of_int f in
      if r < 1 / 2 then f else if 1 / 2 < r then f + 1 else if even f then f else f + 1)"

definition snap_to_grid :: "position \<Rightarrow> position" where
  "snap_to_grid pos =
     (of_int (py_round (fst pos / grid_size)) * grid_size,
      of_int (py_round (snd pos / grid_size)) * grid_size)"

definition is_valid_position_s :: "city_e \<Rightarrow> position \<Rightarrow> bool \<times> city_e" where
  "is_valid_position_s s pos =
     (let s1 = refresh s in
      case kd_tree s1 of
        None \<Rightarrow> (True, s1)
      | Some tree \<Rightarrow> (far_enough tree pos (min_distance * (9 / 10)), s1))"

text \<open>The loop of \<open>_find_valid_position\<close> over the distances.\<close>

fun first_valid_s :: "city_e \<Rightarrow> position \<Rightarrow> real \<Rightarrow> real list \<Rightarrow> position option \<times> city_e" where
  "first_valid_s s base_pos angle [] = (None, s)"
| "first_valid_s s base_pos angle (d # rest) =
     (let raw_pos = polar base_pos angle d;
          snapped = snap_to_grid raw_pos
      in case is_valid_position_s s snapped of
           (True, s1) \<Rightarrow> (Some snapped, s1)
         | (False, s1) \<Rightarrow> first_valid_s s1 base_pos angle rest)"

definition find_valid_position_s :: "city_e \<Rightarrow> position \<Rightarrow> real \<Rightarrow> position option \<times> city_e" where
  "find_valid_position_s s base_pos angle =
     first_valid_s s base_pos angle (linspace min_distance (2 * min_distance) 3)"

definition add_node_s :: "city_e \<Rightarrow> position \<Rightarrow> nat option \<times> city_e" where
  "add_node_s s pos =
     (case is_valid_position_s s pos of
        (False, s1) \<Rightarrow> (None, s1)
      | (True, s1) \<Rightarrow>
          let node_id = length (node_positions s1) in
          (Some node_id,
           s1\<lparr>node_positions := node_positions s1 @ [pos],
              growth_queue := growth_queue s1 @ [node_id],
              kd_tree_dirty := True\<rparr>))"

definition merge_or_create_s :: "city_e \<Rightarrow> nat \<Rightarrow> position \<Rightarrow> position list \<Rightarrow> city_e" where
  "merge_or_create_s s node_id new_pos tree =
     (let create =
        (case add_node_s s new_pos of
           (None, s1) \<Rightarrow> s1
         | (Some new_node_id, s1) \<Rightarrow> add_road s1 node_id new_node_id)
      in case nearest tree new_pos of
           None \<Rightarrow> create
         | Some (dst, idx) \<Rightarrow>
             if dst < min_distance * (1 / 2) then add_road s node_id idx else create)"

definition attempt_s :: "nat \<Rightarrow> position \<Rightarrow> real \<Rightarrow> city_e \<Rightarrow> py_error + city_e" where
  "attempt_s node_id pos angle s =
     (case find_valid_position_s s pos angle of
        (None, s1) \<Rightarrow> Inr s1
      | (Some new_pos, s1) \<Rightarrow>
          (let s2 = refresh s1 in
           (case kd_tree s2 of
              None \<Rightarrow> Inl AttributeError
            | Some tree \<Rightarrow> Inr (merge_or_create_s s2 node_id new_pos tree))))"

fun attempts_s :: "nat \<Rightarrow> position \<Rightarrow> real list \<Rightarrow> city_e \<Rightarrow> py_error + city_e" where
  "attempts_s node_id pos [] s = Inr s"
| "attempts_s node_id pos (angle # rest) s =
     (case attempt_s node_id pos angle s of
        Inl e \<Rightarrow> Inl e
      | Inr s1 \<Rightarrow> attempts_s node_id pos rest s1)"

definition base_angles :: "real list" where
  "base_angles = [0, pi / 2, pi, 3 * pi / 2]"

text \<open>The angle of the \<open>i\<close>-th attempt: a cardinal direction plus the deviation.\<close>

definition angle_s :: "draws \<Rightarrow> nat \<Rightarrow> real" where
  "angle_s d i = choice base_angles (bases d i) + noises d i"

definition grow_city_s :: "city_e \<Rightarrow> draws \<Rightarrow> py_error + city_e" where
  "grow_city_s s d =
     (if growth_queue s = [] then
        (if node_positions s \<noteq> []
         then Inr (s\<lparr>growth_queue := [rng_integers 0 (length (node_positions s)) (pick d)]\<rparr>)
         else Inr s)
      else
        let s1 = s\<lparr>current_time := current_time s + 1\<rparr>;
            node_id = hd (growth_queue s1);
            s2 = s1\<lparr>growth_queue := tl (growth_queue s1)\<rparr>
        in if length (node_positions s2) \<le> node_id then Inl IndexError
           else
             let pos = node_positions s2 ! node_id in
             attempts_s node_id pos (map (angle_s d) [0..<rng_integers 1 4 (count d)]) s2)"

definition init_s :: city_e where
  "init_s = snd (add_node_s empty_e (0, 0))"

fun run_s :: "city_e \<Rightarrow> draws list \<Rightarrow> py_error + city_e" where
  "run_s s [] = Inr s"
| "run_s s (d # ds) =
     (case grow_city_s s d of Inl e \<Rightarrow> Inl e | Inr s1 \<Rightarrow> run_s s1 ds)"

subsection \<open>normal\_city\_unplanned.py\<close>

text \<open>
  \<open>node_positions\<close> is a dict from ids to positions, kept as the list of its items in
  insertion order; \<open>position_to_node\<close> is a dict from positions to ids, only ever looked up
  and assigned, kept as a map. There is no dirty flag: \<open>_add_node\<close> rebuilds the tree when
  the new id is a multiple of ten, and \<open>_is_valid_position\<close> reads the tree as it is.
\<close>

record city_u = city +
  node_positions_u :: "(nat \<times> position) list"
  position_to_node :: "position \<Rightarrow> nat option"

text \<open>\<open>d[k] = v\<close> on the items of a dict: an existing key keeps its place.\<close>

fun dict_set :: "'k \<Rightarrow> 'v \<Rightarrow> ('k \<times> 'v) list \<Rightarrow> ('k \<times> 'v) list" where
  "dict_set k v [] = [(k, v)]"
| "dict_set k v ((k', v') # items) =
     (if k' = k then (k, v) # items else (k', v') # dict_set k v items)"

definition update_spatial_index_u :: "city_u \<Rightarrow> city_u" where
  "update_spatial_index_u s =
     (if node_positions_u s \<noteq> [] then s\<lparr>kd_tree := Some (map snd (node_positions_u s))\<rparr>
      else s)"

definition is_valid_position_u :: "city_u \<Rightarrow> position \<Rightarrow> bool" where
  "is_valid_position_u s pos =
     (case kd_tree s of
        None \<Rightarrow> True
      | Some tree \<Rightarrow> far_enough tree pos min_distance)"

definition find_valid_position_u :: "city_u \<Rightarrow> position \<Rightarrow> real \<Rightarrow> position option" where
  "find_valid_position_u s base_pos angle =
     find (is_valid_position_u s)
       (map (polar base_pos angle) (linspace min_distance (2 * min_distance) 5))"

definition add_node_u :: "city_u \<Rightarrow> position \<Rightarrow> nat option \<times> city_u" where
  "add_node_u s pos =
     (if \<not> is_valid_position_u s pos then (None, s)
      else
        let node_id = length (node_positions_u s);
            s1 = s\<lparr>node_positions_u := dict_set node_id pos (node_positions_u s),
                   position_to_node := (position_to_node s)(pos \<mapsto> node_id),
                   growth_queue := growth_queue s @ [node_id]\<rparr>
        in (Some node_id, if node_id mod 10 = 0 then update_spatial_index_u s1 else s1))"

definition attempt_u :: "nat \<Rightarrow> position \<Rightarrow> real \<Rightarrow> city_u \<Rightarrow> city_u" where
  "attempt_u node_id pos angle s =
     (case find_valid_position_u s pos angle of
        None \<Rightarrow> s
      | Some new_pos \<Rightarrow>
          (case position_to_node s new_pos of
             Some existing_node \<Rightarrow> add_road s node_id existing_node
           | None \<Rightarrow>
               (case add_node_u s new_pos of
                  (None, s1) \<Rightarrow> s1
                | (Some new_node, s1) \<Rightarrow> add_road s1 node_id new_node)))"

definition grow_city_u :: "city_u \<Rightarrow> draws \<Rightarrow> py_error + city_u" where
  "grow_city_u s d =
     (if growth_queue s = [] then
        (if node_positions_u s \<noteq> []
         then Inr (s\<lparr>growth_queue := [choice (map fst (node_positions_u s)) (pick d)]\<rparr>)
         else Inr s)
      else
        let s1 = s\<lparr>current_time := current_time s + 1\<rparr>;
            node_id = hd (growth_queue s1);
            s2 = s1\<lparr>growth_queue := tl (growth_queue s1)\<rparr>
        in case map_of (node_positions_u s2) node_id of
             None \<Rightarrow> Inl KeyError
           | Some pos \<Rightarrow>
               Inr (fold (attempt_u node_id pos)
                      (map (angles d) [0..<randint 1 3 (count d)]) s2))"

definition empty_u :: city_u where
  "empty_u = \<lparr>road_ages = [], growth_queue = [], current_time = 0, kd_tree = None,
              node_positions_u = [], position_to_node = Map.empty\<rparr>"

definition init_u :: city_u where
  "init_u = snd (add_node_u empty_u (0, 0))"

fun run_u :: "city_u \<Rightarrow> draws list \<Rightarrow> py_error + city_u" where
  "run_u s [] = Inr s"
| "run_u s (d # ds) =
     (case grow_city_u s d of Inl e \<Rightarrow> Inl e | Inr s1 \<Rightarrow> run_u s1 ds)"

subsection \<open>Predicates used in the statements\<close>

text \<open>Two road keys with the same unordered pair of endpoints.\<close>

definition same_endpoints :: "nat \<times> nat \<Rightarrow> nat \<times> nat \<Rightarrow> bool" where
  "same_endpoints k k' = ({fst k, snd k} = {fst k', snd k'})"

text \<open>The keys of \<open>road_ages\<close> are pairwise different and each is \<open>(smaller, larger)\<close>.\<close>

definition roads_canonical :: "'a city_scheme \<Rightarrow> bool" where
  "roads_canonical s =
     (distinct (map fst (road_ages s)) \<and> (\<forall>k \<in> set (map fst (road_ages s)). fst k < snd k))"

text \<open>The candidate positions \<open>_find_valid_position\<close> computes (enhance script).\<close>

definition candidates_e :: "position \<Rightarrow> real \<Rightarrow> position list" where
  "candidates_e base_pos angle =
     map (polar base_pos angle) (linspace min_distance (2 * min_distance) 5)"

text \<open>
  \<open>extends_e s s' kn kr\<close>: from \<open>s\<close> to \<open>s'\<close> the clock is unchanged, at most \<open>kn\<close> nodes were
  appended, their ids were appended to the queue in order, and at most \<open>kr\<close> roads were appended.
\<close>

definition extends_e :: "city_e \<Rightarrow> city_e \<Rightarrow> nat \<Rightarrow> nat \<Rightarrow> bool" where
  "extends_e s s' kn kr =
     (current_time s' = current_time s
      \<and> (\<exists>new. length new \<le> kn \<and> node_positions s' = node_positions s @ new
            \<and> growth_queue s' = growth_queue s
                 @ [length (node_positions s)..<length (node_positions s) + length new])
      \<and> (\<exists>roads. length roads \<le> kr \<and> road_ages s' = road_ages s @ roads))"

text \<open>The candidate positions \<open>_find_valid_position\<close> computes (Simcity script).\<close>

definition candidates_s :: "position \<Rightarrow> real \<Rightarrow> position list" where
  "candidates_s base_pos angle =
     map (\<lambda>d. snap_to_grid (polar base_pos angle d)) (linspace min_distance (2 * min_distance) 3)"

text \<open>
  \<open>extends_u s s' kn kr\<close>: from \<open>s\<close> to \<open>s'\<close> the clock is unchanged, the node dict gained at
  most \<open>kn\<close> items and lost none, and at most \<open>kr\<close> roads were appended.
\<close>

definition extends_u :: "city_u \<Rightarrow> city_u \<Rightarrow> nat \<Rightarrow> nat \<Rightarrow> bool" where
  "extends_u s s' kn kr =
     (current_time s' = current_time s
      \<and> length (node_positions_u s) \<le> length (node_positions_u s')
      \<and> length (node_positions_u s') \<le> length (node_positions_u s) + kn
      \<and> (\<exists>roads. length roads \<le> kr \<and> road_ages s' = road_ages s @ roads))"

text \<open>Draws with the same angle (and no deviation from the first cardinal direction) for every attempt.\<close>

definition fixed_draws :: "nat \<Rightarrow> nat \<Rightarrow> real \<Rightarrow> draws" where
  "fixed_draws p c a = \<lparr>pick = p, count = c, angles = (\<lambda>i. a), bases = (\<lambda>i. 0), noises = (\<lambda>i. a)\<rparr>"

text \<open>The state after the clock tick and the \<open>popleft\<close>.\<close>

definition popped :: "'a city_scheme \<Rightarrow> 'a city_scheme" where
  "popped s = s\<lparr>current_time := current_time s + 1, growth_queue := tl (growth_queue s)\<rparr>"

text \<open>The state after one call from the initial state with one attempt at angle 0.\<close>

definition after_one_e :: city_e where
  "after_one_e = \<lparr>road_ages = [((0, 1), 1)], growth_queue = [1], current_time = 1,
                  kd_tree = Some [(0, 0)], node_positions = [(0, 0), (3 / 100, 0)],
                  kd_tree_dirty = True\<rparr>"

text \<open>The distance below which \<open>_is_valid_position\<close> rejects (enhance script).\<close>

definition reject_e :: real where
  "reject_e = min_distance"

text \<open>Every two different entries of a list of positions are at least \<open>b\<close> apart.\<close>

definition spaced :: "real \<Rightarrow> position list \<Rightarrow> bool" where
  "spaced b ps = (\<forall>i < length ps. \<forall>j < length ps. i \<noteq> j \<longrightarrow> b \<le> euclid (ps ! i) (ps ! j))"

text \<open>There is a node, and the tree is either marked stale or built from the current nodes.\<close>

definition index_ok :: "city_e \<Rightarrow> bool" where
  "index_ok s = (node_positions s \<noteq> [] \<and> (kd_tree_dirty s \<or> kd_tree s = Some (node_positions s)))"

text \<open>Every id in the queue is the id of a node.\<close>

definition queue_ok :: "city_e \<Rightarrow> bool" where
  "queue_ok s = (\<forall>i \<in> set (growth_queue s). i < length (node_positions s))"

text \<open>The road keys are canonical, pairwise different, and name existing nodes.\<close>

definition roads_ok :: "city_e \<Rightarrow> bool" where
  "roads_ok s = (roads_canonical s \<and> (\<forall>k \<in> set (map fst (road_ages s)). snd k < length (node_positions s)))"

definition wf_e :: "city_e \<Rightarrow> bool" where
  "wf_e s = (index_ok s \<and> queue_ok s \<and> roads_ok s \<and> spaced reject_e (node_positions s))"

text \<open>The states between calls: the initial state and what \<open>grow_city\<close> returns from them.\<close>

inductive reach_e :: "city_e \<Rightarrow> bool" where
  reach_e_init: "reach_e init_e"
| reach_e_step: "reach_e s \<Longrightarrow> grow_city_e s d = Inr s' \<Longrightarrow> reach_e s'"

text \<open>
  The state after an attempt from node \<open>node_id\<close> that creates a node at \<open>p\<close> and the road
  to it.
\<close>

definition created :: "city_e \<Rightarrow> nat \<Rightarrow> position \<Rightarrow> city_e" where
  "created s node_id p =
     (refresh s)\<lparr>node_positions := node_positions s @ [p],
                  growth_queue := growth_queue s @ [length (node_positions s)],
                  kd_tree_dirty := True,
                  road_ages := road_ages s @ [((node_id, length (node_positions s)), current_time s)]\<rparr>"

text \<open>The distance below which \<open>_is_valid_position\<close> rejects (Simcity script).\<close>

definition reject_s :: real where
  "reject_s = min_distance * (9 / 10)"

definition wf_s :: "city_e \<Rightarrow> bool" where
  "wf_s s = (index_ok s \<and> queue_ok s \<and> roads_ok s \<and> spaced reject_s (node_positions s))"

text \<open>The states between calls: the initial state and what \<open>grow_city\<close> returns from them.\<close>

inductive reach_s :: "city_e \<Rightarrow> bool" where
  reach_s_init: "reach_s init_s"
| reach_s_step: "reach_s s \<Longrightarrow> grow_city_s s d = Inr s' \<Longrightarrow> reach_s s'"

text \<open>Every id in the queue is a key of the node dict (unplanned script).\<close>

definition queue_ok_u :: "city_u \<Rightarrow> bool" where
  "queue_ok_u s = (\<forall>i \<in> set (growth_queue s). i \<in> fst ` set (node_positions_u s))"

text \<open>The states between calls of the unplanned script.\<close>

inductive reach_u :: "city_u \<Rightarrow> bool" where
  reach_u_init: "reach_u init_u"
| reach_u_step: "reach_u s \<Longrightarrow> grow_city_u s d = Inr s' \<Longrightarrow> reach_u s'"

text \<open>Draws for a call with two attempts, at angle \<open>a\<close> and then at angle \<open>b\<close>.\<close>

definition two_angle_draws :: "real \<Rightarrow> real \<Rightarrow> draws" where
  "two_angle_draws a b =
     \<lparr>pick = 0, count = 1, angles = (\<lambda>i. if i = 0 then a else b), bases = (\<lambda>i. 0),
      noises = (\<lambda>i. if i = 0 then a else b)\<rparr>"

text \<open>The state after one call from the initial state with attempts at angles 0 and \<open>\<pi>/6\<close>.\<close>

definition crowded_u :: city_u where
  "crowded_u =
     \<lparr>road_ages = [((0, 1), 1), ((0, 2), 1)], growth_queue = [1, 2], current_time = 1,
      kd_tree = Some [(0, 0)],
      node_positions_u = [(0, (0, 0)), (1, (3 / 100, 0)), (2, (3 * sqrt 3 / 200, 3 / 200))],
      position_to_node = [(0, 0) \<mapsto> 0, (3 / 100, 0) \<mapsto> 1, (3 * sqrt 3 / 200, 3 / 200) \<mapsto> 2]\<rparr>"

text \<open>An insertion (\<open>_add_node\<close>) or a validity query (\<open>_is_valid_position\<close>).\<close>

datatype index_op = Insert position | Query position

text \<open>The tree is built from exactly the nodes now stored (there is no tree while there is no node).\<close>

definition tree_current :: "city_e \<Rightarrow> bool" where
  "tree_current s =
     (kd_tree s = (if node_positions s = [] then None else Some (node_positions s)))"

text \<open>
  Running a sequence of insertions and queries of the enhance script from \<open>s\<close>: every query,
  also the one an insertion makes first, is answered from a tree that is current. The tree a
  query reads is the one in the state \<open>_is_valid_position\<close> leaves behind.
\<close>

fun queries_current_e :: "city_e \<Rightarrow> index_op list \<Rightarrow> bool" where
  "queries_current_e s [] = True"
| "queries_current_e s (Query p # ops) =
     (tree_current (snd (is_valid_position_e s p))
      \<and> queries_current_e (snd (is_valid_position_e s p)) ops)"
| "queries_current_e s (Insert p # ops) =
     (tree_current (snd (is_valid_position_e s p))
      \<and> queries_current_e (snd (add_node_e s p)) ops)"

text \<open>The tree is marked stale or is current, and there is no tree while there is no node.\<close>

definition lazy_ok :: "city_e \<Rightarrow> bool" where
  "lazy_ok s =
     ((node_positions s \<noteq> [] \<or> kd_tree s = None) \<and> (kd_tree_dirty s \<or> tree_current s))"

text \<open>
  From \<open>s\<close> to \<open>s'\<close> the clock is unchanged, nodes were only appended, and the roads appended
  are exactly one per new node, from \<open>node_id\<close> to that node, in order.
\<close>

definition roads_to_new :: "city_e \<Rightarrow> city_e \<Rightarrow> nat \<Rightarrow> bool" where
  "roads_to_new s s' node_id =
     (\<exists>new. node_positions s' = node_positions s @ new
        \<and> road_ages s' = road_ages s
             @ map (\<lambda>j. ((node_id, length (node_positions s) + j), current_time s)) [0..<length new]
        \<and> current_time s' = current_time s)"

text \<open>A state with a single node at \<open>(1.5 * min_distance, 0)\<close>, used to exhibit a failed search.\<close>

definition blocked_e :: city_e where
  "blocked_e = empty_e\<lparr>node_positions := [(9 / 200, 0)], kd_tree_dirty := True\<rparr>"

text \<open>A position whose coordinates are integer multiples of \<open>grid_size\<close>.\<close>

definition on_grid :: "position \<Rightarrow> bool" where
  "on_grid p = (\<exists>a b :: int. p = (of_int a * grid_size, of_int b * grid_size))"

text \<open>Every position of the list is within distance \<open>r\<close> of the origin.\<close>

definition all_within :: "real \<Rightarrow> position list \<Rightarrow> bool" where
  "all_within r ps = (\<forall>p \<in> set ps. euclid p (0, 0) \<le> r)"

text \<open>
  The nodes of the Simcity script, by id: there is a node 0 at the origin, every node is on the
  grid, and node \<open>j \<ge> 1\<close> is within \<open>(2j - (sqrt 5 - 2)) * grid_size\<close> of the origin.
\<close>

definition geo_ok :: "position list \<Rightarrow> bool" where
  "geo_ok ps =
     (ps \<noteq> [] \<and> ps ! 0 = (0, 0) \<and> (\<forall>p \<in> set ps. on_grid p)
      \<and> (\<forall>j < length ps. 1 \<le> j \<longrightarrow>
             euclid (ps ! j) (0, 0) \<le> (2 * real j - (sqrt 5 - 2)) * grid_size))"

text \<open>
  After \<open>n\<close> calls: there are at most \<open>n\<close> more nodes than queue entries, and the id at
  position \<open>k\<close> of the queue is at most \<open>n + k\<close> (so a node is dequeued no earlier than in the
  call after the one numbered by its id).
\<close>

definition sched_ok :: "nat \<Rightarrow> city_e \<Rightarrow> bool" where
  "sched_ok n s =
     (length (node_positions s) \<le> n + length (growth_queue s)
      \<and> (\<forall>k < length (growth_queue s). growth_queue s ! k \<le> n + k))"

text \<open>The distance from the origin that the nodes of the Simcity script keep after \<open>n\<close> calls.\<close>

definition reach_bound :: "nat \<Rightarrow> real" where
  "reach_bound n = max (2 * real n) (sqrt 5) * grid_size"

definition inv_s :: "nat \<Rightarrow> city_e \<Rightarrow> bool" where
  "inv_s n s =
     (wf_s s \<and> geo_ok (node_positions s) \<and> sched_ok n s
      \<and> all_within (reach_bound n) (node_positions s))"

section \<open>Properties\<close>

subsection \<open>\<open>_add_road\<close>\<close>

lemma add_road_self: "add_road s a a = s"
  by (simp add: add_road_def)

lemma add_road_cases:
  "add_road s a b = s \<or>
   (a \<noteq> b \<and> map_of (road_ages s) (min a b, max a b) = None \<and>
    add_road s a b = s\<lparr>road_ages := road_ages s @ [((min a b, max a b), current_time s)]\<rparr>)"
  by (simp add: add_road_def Let_def)

lemma add_road_key_present:
  "a \<noteq> b \<Longrightarrow> map_of (road_ages (add_road s a b)) (min a b, max a b) \<noteq> None"
  by (auto simp: add_road_def Let_def map_of_eq_None_iff)

lemma add_road_other_keys:
  "k \<noteq> (min a b, max a b) \<Longrightarrow> map_of (road_ages (add_road s a b)) k = map_of (road_ages s) k"
  by (auto simp: add_road_def Let_def map_add_def split: option.splits)

lemma add_road_keeps_timestamp:
  "map_of (road_ages s) k = Some t \<Longrightarrow> map_of (road_ages (add_road s a b)) k = Some t"
  by (auto simp: add_road_def Let_def map_add_def split: option.splits)

lemma add_road_canonical:
  "roads_canonical s \<Longrightarrow> roads_canonical (add_road s a b)"
  by (auto simp: add_road_def Let_def roads_canonical_def map_of_eq_None_iff)

lemma add_road_again:
  "road_ages (add_road ((add_road s a b)\<lparr>current_time := t\<rparr>) a b) = road_ages (add_road s a b)"
  "road_ages (add_road ((add_road s a b)\<lparr>current_time := t\<rparr>) b a) = road_ages (add_road s a b)"
  by (auto simp: add_road_def Let_def min.commute max.commute map_of_eq_None_iff)

lemma canonical_no_shared_pair:
  assumes "roads_canonical s" "i < j" "j < length (road_ages s)"
  shows "\<not> same_endpoints (fst (road_ages s ! i)) (fst (road_ages s ! j))"
proof
  let ?ks = "map fst (road_ages s)"
  assume se: "same_endpoints (fst (road_ages s ! i)) (fst (road_ages s ! j))"
  have i: "i < length ?ks" and j: "j < length ?ks" using assms by simp_all
  have ci: "fst (?ks ! i) < snd (?ks ! i)" and cj: "fst (?ks ! j) < snd (?ks ! j)"
    using assms(1) i j unfolding roads_canonical_def by (metis nth_mem)+
  from se have "{fst (?ks ! i), snd (?ks ! i)} = {fst (?ks ! j), snd (?ks ! j)}"
    using i j by (simp add: same_endpoints_def)
  with ci cj have "?ks ! i = ?ks ! j"
    by (metis doubleton_eq_iff less_irrefl_nat less_not_sym prod.collapse)
  moreover have "distinct ?ks" using assms(1) by (simp add: roads_canonical_def)
  ultimately have "i = j" using i j nth_eq_iff_index_eq by blast
  then show False using assms(2) by simp
qed

text \<open>
  Claim C6. For all node ids \<open>a\<close>, \<open>b\<close> and every state: \<open>_add_road(a, a)\<close> changes nothing;
  for \<open>a \<noteq> b\<close> the road is stored under the key \<open>(min a b, max a b)\<close> and no other key
  changes; a road dict whose keys are canonical and pairwise different stays so, and in such
  a dict no two entries share an unordered pair of endpoints; a second call with the same
  pair, in either order and at any later clock value, leaves the dict and with it the first
  timestamp unchanged.
\<close>

theorem C6_add_road:
  "add_road s a a = s
   \<and> (a \<noteq> b \<longrightarrow>
        map_of (road_ages (add_road s a b)) (min a b, max a b) \<noteq> None
        \<and> (\<forall>k. k \<noteq> (min a b, max a b) \<longrightarrow>
               map_of (road_ages (add_road s a b)) k = map_of (road_ages s) k))
   \<and> (\<forall>k t0. map_of (road_ages s) k = Some t0 \<longrightarrow>
               map_of (road_ages (add_road s a b)) k = Some t0)
   \<and> (roads_canonical s \<longrightarrow>
        roads_canonical (add_road s a b)
        \<and> (\<forall>i j. i < j \<and> j < length (road_ages (add_road s a b)) \<longrightarrow>
               \<not> same_endpoints (fst (road_ages (add_road s a b) ! i))
                                 (fst (road_ages (add_road s a b) ! j))))
   \<and> road_ages (add_road ((add_road s a b)\<lparr>current_time := t\<rparr>) a b) = road_ages (add_road s a b)
   \<and> road_ages (add_road ((add_road s a b)\<lparr>current_time := t\<rparr>) b a) = road_ages (add_road s a b)"
  using add_road_self [where s = s and a = a]
    add_road_key_present [where s = s and a = a and b = b]
    add_road_other_keys [where s = s and a = a and b = b]
    add_road_keeps_timestamp [where s = s and a = a and b = b]
    add_road_canonical [where s = s and a = a and b = b]
    canonical_no_shared_pair [where s = "add_road s a b"]
    add_road_again [where s = s and a = a and b = b and t = t]
  by blast

theorem C6_add_road_witness:
  "road_ages (add_road (add_road empty_e 0 1) 2 1) = [((0, 1), 0), ((1, 2), 0)]
   \<and> roads_canonical (add_road (add_road empty_e 0 1) 2 1)
   \<and> \<not> same_endpoints (0, 1) (1, 2)
   \<and> road_ages (add_road ((add_road (add_road empty_e 0 1) 2 1)\<lparr>current_time := 7\<rparr>) 1 2)
       = [((0, 1), 0), ((1, 2), 0)]
   \<and> map_of (road_ages (add_road ((add_road (add_road empty_e 0 1) 2 1)\<lparr>current_time := 7\<rparr>) 1 2))
        (1, 2) = Some 0"
proof -
  let ?s = "add_road empty_e 0 1"
  let ?s2 = "add_road ?s 2 1"
  have c: "roads_canonical ?s"
    by (simp add: roads_canonical_def add_road_def empty_e_def)
  have r2: "road_ages ?s2 = [((0, 1), 0), ((1, 2), 0)]"
    by (simp add: add_road_def empty_e_def)
  note w = C6_add_road [of ?s 2 1 7]
  have w1: "roads_canonical ?s2" using w c by blast
  have "\<forall>i j. i < j \<and> j < length (road_ages ?s2) \<longrightarrow>
          \<not> same_endpoints (fst (road_ages ?s2 ! i)) (fst (road_ages ?s2 ! j))"
    using w c by blast
  then have "(0::nat) < 1 \<and> 1 < length (road_ages ?s2) \<longrightarrow>
          \<not> same_endpoints (fst (road_ages ?s2 ! 0)) (fst (road_ages ?s2 ! 1))"
    by blast
  then have w2: "\<not> same_endpoints (0, 1) (1, 2)"
    unfolding r2 by simp
  have w3: "road_ages (add_road (?s2\<lparr>current_time := 7\<rparr>) 1 2) = road_ages ?s2"
    using w by blast
  show ?thesis
    unfolding w3 r2 using w1 w2 by simp
qed

subsection \<open>The query\<close>

lemma nearest_None [simp]: "nearest ps q = None \<longleftrightarrow> ps = []"
  by (cases ps) (auto split: option.splits)

lemma nearest_Some:
  "nearest ps q = Some (d, i) \<Longrightarrow>
     i < length ps \<and> d = euclid (ps ! i) q \<and> (\<forall>p \<in> set ps. d \<le> euclid p q)"
proof (induction ps arbitrary: d i)
  case Nil
  then show ?case by simp
next
  case (Cons p ps)
  show ?case
  proof (cases "nearest ps q")
    case None
    then show ?thesis using Cons.prems by auto
  next
    case (Some r)
    obtain d' i' where r: "r = (d', i')" by (cases r)
    from Cons.IH [of d' i'] Some r
    have ih: "i' < length ps" "d' = euclid (ps ! i') q" "\<forall>p \<in> set ps. d' \<le> euclid p q"
      by auto
    show ?thesis
      using Cons.prems Some r ih by (auto split: if_splits)
  qed
qed

lemma far_enough_iff: "far_enough ps q b \<longleftrightarrow> (\<forall>p \<in> set ps. b \<le> euclid p q)"
proof (cases "nearest ps q")
  case None
  then show ?thesis by (simp add: far_enough_def)
next
  case (Some r)
  obtain d i where r: "r = (d, i)" by (cases r)
  from nearest_Some [of ps q d i] Some r
  have "i < length ps" "d = euclid (ps ! i) q" "\<forall>p \<in> set ps. d \<le> euclid p q" by auto
  then show ?thesis
    using Some r by (fastforce simp: far_enough_def)
qed

subsection \<open>The lazy rebuild\<close>

lemma refresh_frame [simp]:
  "node_positions (refresh s) = node_positions s"
  "growth_queue (refresh s) = growth_queue s"
  "road_ages (refresh s) = road_ages s"
  "current_time (refresh s) = current_time s"
  "kd_tree_dirty (refresh s) = False"
  by (auto simp: refresh_def update_spatial_index_def)

lemma refresh_tree:
  "kd_tree (refresh s) =
     (if kd_tree_dirty s \<and> node_positions s \<noteq> [] then Some (node_positions s) else kd_tree s)"
  by (auto simp: refresh_def update_spatial_index_def)

lemma refresh_clean: "\<not> kd_tree_dirty s \<Longrightarrow> refresh s = s"
  by (simp add: refresh_def)

lemma refresh_idem [simp]: "refresh (refresh s) = refresh s"
  by (rule refresh_clean) simp

subsection \<open>enhance: validity and search\<close>

lemma is_valid_position_e_snd [simp]: "snd (is_valid_position_e s pos) = refresh s"
  by (simp add: is_valid_position_e_def Let_def split: option.splits)

lemma is_valid_position_e_fst:
  "fst (is_valid_position_e s pos) =
     (case kd_tree (refresh s) of None \<Rightarrow> True | Some tree \<Rightarrow> far_enough tree pos min_distance)"
  by (simp add: is_valid_position_e_def Let_def split: option.splits)

lemma is_valid_position_e_refresh [simp]:
  "fst (is_valid_position_e (refresh s) pos) = fst (is_valid_position_e s pos)"
  by (simp add: is_valid_position_e_fst)

lemma first_valid_e_eq:
  "first_valid_e s ps =
     (find (\<lambda>p. fst (is_valid_position_e s p)) ps, if ps = [] then s else refresh s)"
proof (induction ps arbitrary: s)
  case Nil
  then show ?case by simp
next
  case (Cons p ps)
  obtain v s1 where v: "is_valid_position_e s p = (v, s1)" by (cases "is_valid_position_e s p")
  then have s1: "s1 = refresh s" and vv: "v = fst (is_valid_position_e s p)"
    using is_valid_position_e_snd [of s p] by auto
  show ?case
    using Cons.IH [of "refresh s"] v s1 vv by (cases v) auto
qed

lemma linspace5: "linspace a b 5 = [a, a + (b - a) / 4, a + 2 * ((b - a) / 4), a + 3 * ((b - a) / 4), a + 4 * ((b - a) / 4)]"
  by (simp add: linspace_def upt_rec)

lemma linspace3: "linspace a b 3 = [a, a + (b - a) / 2, a + 2 * ((b - a) / 2)]"
  by (simp add: linspace_def upt_rec)

lemma candidates_e_nonempty [simp]: "candidates_e b a \<noteq> []"
  by (simp add: candidates_e_def linspace5)

lemma find_valid_position_e_eq:
  "find_valid_position_e s base_pos angle =
     (find (\<lambda>p. fst (is_valid_position_e s p)) (candidates_e base_pos angle), refresh s)"
  using candidates_e_nonempty [of base_pos angle]
  by (simp add: find_valid_position_e_def Let_def first_valid_e_eq candidates_e_def)

subsection \<open>enhance: node insertion\<close>

lemma add_node_e_Some:
  "add_node_e s pos = (Some i, s') \<Longrightarrow>
     fst (is_valid_position_e s pos) \<and> i = length (node_positions s) \<and>
     s' = (refresh s)\<lparr>node_positions := node_positions s @ [pos],
                      growth_queue := growth_queue s @ [i],
                      kd_tree_dirty := True\<rparr>"
  by (cases "is_valid_position_e s pos")
     (use is_valid_position_e_snd [of s pos] in \<open>auto simp: add_node_e_def Let_def split: bool.splits\<close>)

lemma add_node_e_None:
  "add_node_e s pos = (None, s') \<Longrightarrow> \<not> fst (is_valid_position_e s pos) \<and> s' = refresh s"
  by (cases "is_valid_position_e s pos")
     (use is_valid_position_e_snd [of s pos] in \<open>auto simp: add_node_e_def Let_def split: bool.splits\<close>)

lemma add_node_e_valid:
  "fst (is_valid_position_e s pos) \<Longrightarrow>
   add_node_e s pos = (Some (length (node_positions s)),
     (refresh s)\<lparr>node_positions := node_positions s @ [pos],
                  growth_queue := growth_queue s @ [length (node_positions s)],
                  kd_tree_dirty := True\<rparr>)"
  by (cases "is_valid_position_e s pos")
     (use is_valid_position_e_snd [of s pos] in \<open>auto simp: add_node_e_def Let_def split: bool.splits\<close>)

subsection \<open>What one call may change\<close>

lemma extends_e_refl: "extends_e s s 0 0"
  by (simp add: extends_e_def)

lemma extends_e_refresh: "extends_e s (refresh s) 0 0"
  by (simp add: extends_e_def)

lemma extends_e_mono: "extends_e s s' a b \<Longrightarrow> a \<le> a' \<Longrightarrow> b \<le> b' \<Longrightarrow> extends_e s s' a' b'"
  unfolding extends_e_def by (meson le_trans)

lemma extends_e_trans:
  assumes "extends_e s s1 a b" "extends_e s1 s2 a' b'"
  shows "extends_e s s2 (a + a') (b + b')"
proof -
  from assms(1) obtain n1 r1 where 1: "current_time s1 = current_time s" "length n1 \<le> a"
    "node_positions s1 = node_positions s @ n1"
    "growth_queue s1 = growth_queue s @ [length (node_positions s)..<length (node_positions s) + length n1]"
    "length r1 \<le> b" "road_ages s1 = road_ages s @ r1"
    unfolding extends_e_def by blast
  from assms(2) obtain n2 r2 where 2: "current_time s2 = current_time s1" "length n2 \<le> a'"
    "node_positions s2 = node_positions s1 @ n2"
    "growth_queue s2 = growth_queue s1 @ [length (node_positions s1)..<length (node_positions s1) + length n2]"
    "length r2 \<le> b'" "road_ages s2 = road_ages s1 @ r2"
    unfolding extends_e_def by blast
  have q: "growth_queue s2 = growth_queue s
      @ [length (node_positions s)..<length (node_positions s) + length (n1 @ n2)]"
    using 1 2 upt_add_eq_append [of "length (node_positions s)" "length (node_positions s) + length n1" "length n2"]
    by (simp add: add.assoc)
  show ?thesis
    unfolding extends_e_def
    using 1 2 q
    by (intro conjI exI [of _ "n1 @ n2"] exI [of _ "r1 @ r2"]) simp_all
qed

lemma extends_e_add_road: "extends_e s (add_road s a b) 0 1"
  using add_road_cases [of s a b]
  by (auto simp: extends_e_def)

lemma extends_e_add_node:
  "add_node_e s pos = (r, s') \<Longrightarrow> extends_e s s' 1 0"
proof (cases r)
  case None
  assume "add_node_e s pos = (r, s')"
  with None have "s' = refresh s" using add_node_e_None by blast
  then show ?thesis using extends_e_refresh [of s] extends_e_mono by blast
next
  case (Some i)
  assume "add_node_e s pos = (r, s')"
  with Some add_node_e_Some [of s pos i s'] show ?thesis
    by (auto simp: extends_e_def intro!: exI [of _ "[pos]"])
qed

lemma extends_e_merge_or_create:
  "extends_e s (merge_or_create_e s node_id new_pos tree) 1 1"
proof -
  obtain r s1 where a: "add_node_e s new_pos = (r, s1)" by (cases "add_node_e s new_pos")
  have n: "extends_e s s1 1 0" using a by (rule extends_e_add_node)
  have c: "extends_e s (case r of None \<Rightarrow> s1 | Some i \<Rightarrow> add_road s1 node_id i) 1 1"
  proof (cases r)
    case None
    then show ?thesis using n extends_e_mono by fastforce
  next
    case (Some i)
    then show ?thesis using extends_e_trans [OF n extends_e_add_road [of s1 node_id i]] by simp
  qed
  have m: "extends_e s (add_road s node_id idx) 1 1" for idx
    using extends_e_add_road [of s node_id idx] extends_e_mono by fastforce
  show ?thesis
    using c m a by (auto simp: merge_or_create_e_def Let_def split: option.splits prod.splits)
qed

lemma extends_e_attempt:
  assumes "attempt_e node_id pos angle s = Inr s'"
  shows "extends_e s s' 1 1"
proof (cases "find (\<lambda>p. fst (is_valid_position_e s p)) (candidates_e pos angle)")
  case None
  then have "s' = refresh s" using assms by (simp add: attempt_e_def find_valid_position_e_eq)
  then show ?thesis using extends_e_refresh [of s] extends_e_mono by fastforce
next
  case (Some new_pos)
  then obtain tree where "s' = merge_or_create_e (refresh s) node_id new_pos tree"
    using assms by (auto simp: attempt_e_def find_valid_position_e_eq Let_def split: option.splits)
  then show ?thesis
    using extends_e_trans [OF extends_e_refresh [of s]
        extends_e_merge_or_create [of "refresh s" node_id new_pos tree]] by simp
qed

lemma extends_e_attempts:
  "attempts_e node_id pos as s = Inr s' \<Longrightarrow> extends_e s s' (length as) (length as)"
proof (induction as arbitrary: s)
  case Nil
  then show ?case by (simp add: extends_e_refl)
next
  case (Cons a as)
  then obtain s1 where 1: "attempt_e node_id pos a s = Inr s1" and 2: "attempts_e node_id pos as s1 = Inr s'"
    by (auto split: sum.splits)
  show ?case
    using extends_e_trans [OF extends_e_attempt [OF 1] Cons.IH [OF 2]] by simp
qed

lemma rng_integers_1_4: "1 \<le> rng_integers 1 4 raw \<and> rng_integers 1 4 raw \<le> 3"
  by (simp add: rng_integers_def)

lemma randint_1_3: "1 \<le> randint 1 3 raw \<and> randint 1 3 raw \<le> 3"
  by (simp add: randint_def)

lemma rng_integers_0: "0 < n \<Longrightarrow> rng_integers 0 n raw < n"
  by (simp add: rng_integers_def)

subsection \<open>Simcity: validity, search, insertion\<close>

lemma is_valid_position_s_snd [simp]: "snd (is_valid_position_s s pos) = refresh s"
  by (simp add: is_valid_position_s_def Let_def split: option.splits)

lemma is_valid_position_s_fst:
  "fst (is_valid_position_s s pos) =
     (case kd_tree (refresh s) of
        None \<Rightarrow> True
      | Some tree \<Rightarrow> far_enough tree pos (min_distance * (9 / 10)))"
  by (simp add: is_valid_position_s_def Let_def split: option.splits)

lemma is_valid_position_s_refresh [simp]:
  "fst (is_valid_position_s (refresh s) pos) = fst (is_valid_position_s s pos)"
  by (simp add: is_valid_position_s_fst)

lemma first_valid_s_eq:
  "first_valid_s s base_pos angle ds =
     (find (\<lambda>p. fst (is_valid_position_s s p)) (map (\<lambda>d. snap_to_grid (polar base_pos angle d)) ds),
      if ds = [] then s else refresh s)"
proof (induction ds arbitrary: s)
  case Nil
  then show ?case by simp
next
  case (Cons d ds)
  let ?p = "snap_to_grid (polar base_pos angle d)"
  obtain v s1 where v: "is_valid_position_s s ?p = (v, s1)" by (cases "is_valid_position_s s ?p")
  then have s1: "s1 = refresh s" and vv: "v = fst (is_valid_position_s s ?p)"
    using is_valid_position_s_snd [of s ?p] by auto
  show ?case
    using Cons.IH [of "refresh s"] v s1 vv by (cases v) (auto simp: Let_def)
qed

lemma candidates_s_nonempty [simp]: "candidates_s b a \<noteq> []"
  by (simp add: candidates_s_def linspace3)

lemma find_valid_position_s_eq:
  "find_valid_position_s s base_pos angle =
     (find (\<lambda>p. fst (is_valid_position_s s p)) (candidates_s base_pos angle), refresh s)"
  by (simp add: find_valid_position_s_def first_valid_s_eq candidates_s_def linspace3)

lemma add_node_s_Some:
  "add_node_s s pos = (Some i, s') \<Longrightarrow>
     fst (is_valid_position_s s pos) \<and> i = length (node_positions s) \<and>
     s' = (refresh s)\<lparr>node_positions := node_positions s @ [pos],
                      growth_queue := growth_queue s @ [i],
                      kd_tree_dirty := True\<rparr>"
  by (cases "is_valid_position_s s pos")
     (use is_valid_position_s_snd [of s pos] in \<open>auto simp: add_node_s_def Let_def split: bool.splits\<close>)

lemma add_node_s_None:
  "add_node_s s pos = (None, s') \<Longrightarrow> \<not> fst (is_valid_position_s s pos) \<and> s' = refresh s"
  by (cases "is_valid_position_s s pos")
     (use is_valid_position_s_snd [of s pos] in \<open>auto simp: add_node_s_def Let_def split: bool.splits\<close>)

lemma add_node_s_valid:
  "fst (is_valid_position_s s pos) \<Longrightarrow>
   add_node_s s pos = (Some (length (node_positions s)),
     (refresh s)\<lparr>node_positions := node_positions s @ [pos],
                  growth_queue := growth_queue s @ [length (node_positions s)],
                  kd_tree_dirty := True\<rparr>)"
  by (cases "is_valid_position_s s pos")
     (use is_valid_position_s_snd [of s pos] in \<open>auto simp: add_node_s_def Let_def split: bool.splits\<close>)

lemma extends_e_add_node_s:
  "add_node_s s pos = (r, s') \<Longrightarrow> extends_e s s' 1 0"
proof (cases r)
  case None
  assume "add_node_s s pos = (r, s')"
  with None have "s' = refresh s" using add_node_s_None by blast
  then show ?thesis using extends_e_refresh [of s] extends_e_mono by blast
next
  case (Some i)
  assume "add_node_s s pos = (r, s')"
  with Some add_node_s_Some [of s pos i s'] show ?thesis
    by (auto simp: extends_e_def intro!: exI [of _ "[pos]"])
qed

lemma extends_e_merge_or_create_s:
  "extends_e s (merge_or_create_s s node_id new_pos tree) 1 1"
proof -
  obtain r s1 where a: "add_node_s s new_pos = (r, s1)" by (cases "add_node_s s new_pos")
  have n: "extends_e s s1 1 0" using a by (rule extends_e_add_node_s)
  have c: "extends_e s (case r of None \<Rightarrow> s1 | Some i \<Rightarrow> add_road s1 node_id i) 1 1"
  proof (cases r)
    case None
    then show ?thesis using n extends_e_mono by fastforce
  next
    case (Some i)
    then show ?thesis using extends_e_trans [OF n extends_e_add_road [of s1 node_id i]] by simp
  qed
  have m: "extends_e s (add_road s node_id idx) 1 1" for idx
    using extends_e_add_road [of s node_id idx] extends_e_mono by fastforce
  show ?thesis
    using c m a by (auto simp: merge_or_create_s_def Let_def split: option.splits prod.splits)
qed

lemma extends_e_attempt_s:
  assumes "attempt_s node_id pos angle s = Inr s'"
  shows "extends_e s s' 1 1"
proof (cases "find (\<lambda>p. fst (is_valid_position_s s p)) (candidates_s pos angle)")
  case None
  then have "s' = refresh s" using assms by (simp add: attempt_s_def find_valid_position_s_eq)
  then show ?thesis using extends_e_refresh [of s] extends_e_mono by fastforce
next
  case (Some new_pos)
  then obtain tree where "s' = merge_or_create_s (refresh s) node_id new_pos tree"
    using assms by (auto simp: attempt_s_def find_valid_position_s_eq Let_def split: option.splits)
  then show ?thesis
    using extends_e_trans [OF extends_e_refresh [of s]
        extends_e_merge_or_create_s [of "refresh s" node_id new_pos tree]] by simp
qed

lemma extends_e_attempts_s:
  "attempts_s node_id pos as s = Inr s' \<Longrightarrow> extends_e s s' (length as) (length as)"
proof (induction as arbitrary: s)
  case Nil
  then show ?case by (simp add: extends_e_refl)
next
  case (Cons a as)
  then obtain s1 where 1: "attempt_s node_id pos a s = Inr s1" and 2: "attempts_s node_id pos as s1 = Inr s'"
    by (auto split: sum.splits)
  show ?case
    using extends_e_trans [OF extends_e_attempt_s [OF 1] Cons.IH [OF 2]] by simp
qed

subsection \<open>unplanned: what one call may change\<close>

lemma dict_set_nonempty [simp]: "dict_set k v items \<noteq> []"
  by (cases items) (auto split: if_splits)

lemma length_dict_set:
  "length (dict_set k v items) = (if k \<in> fst ` set items then length items else Suc (length items))"
proof (induction items)
  case Nil
  then show ?case by simp
next
  case (Cons x items)
  obtain k' v' where x: "x = (k', v')" by (cases x)
  show ?case
  proof (cases "k' = k")
    case True
    then show ?thesis using x by simp
  next
    case False
    then show ?thesis using x Cons.IH by simp
  qed
qed

lemma map_of_dict_set: "map_of (dict_set k v items) = (map_of items)(k \<mapsto> v)"
  by (induction items) auto

lemma extends_u_refl: "extends_u s s 0 0"
  by (simp add: extends_u_def)

lemma extends_u_mono: "extends_u s s' a b \<Longrightarrow> a \<le> a' \<Longrightarrow> b \<le> b' \<Longrightarrow> extends_u s s' a' b'"
  unfolding extends_u_def by (meson add_left_mono le_trans)

lemma extends_u_trans:
  assumes "extends_u s s1 a b" "extends_u s1 s2 a' b'"
  shows "extends_u s s2 (a + a') (b + b')"
proof -
  from assms(1) obtain r1 where 1: "length r1 \<le> b" "road_ages s1 = road_ages s @ r1"
    unfolding extends_u_def by blast
  from assms(2) obtain r2 where 2: "length r2 \<le> b'" "road_ages s2 = road_ages s1 @ r2"
    unfolding extends_u_def by blast
  show ?thesis
    unfolding extends_u_def
    using assms 1 2
    by (intro conjI exI [of _ "r1 @ r2"]) (simp_all add: extends_u_def)
qed

lemma extends_u_add_road: "extends_u s (add_road s a b) 0 1"
  using add_road_cases [of s a b]
  by (auto simp: extends_u_def)

lemma add_node_u_Some:
  "add_node_u s pos = (Some i, s') \<Longrightarrow>
     is_valid_position_u s pos \<and> i = length (node_positions_u s) \<and>
     node_positions_u s' = dict_set i pos (node_positions_u s) \<and>
     position_to_node s' = (position_to_node s)(pos \<mapsto> i) \<and>
     growth_queue s' = growth_queue s @ [i] \<and>
     road_ages s' = road_ages s \<and> current_time s' = current_time s \<and>
     kd_tree s' = (if i mod 10 = 0 then Some (map snd (node_positions_u s')) else kd_tree s)"
  by (auto simp: add_node_u_def Let_def update_spatial_index_u_def split: if_splits)

lemma add_node_u_None:
  "add_node_u s pos = (None, s') \<Longrightarrow> \<not> is_valid_position_u s pos \<and> s' = s"
  by (auto simp: add_node_u_def Let_def split: if_splits)

lemma extends_u_add_node:
  "add_node_u s pos = (r, s') \<Longrightarrow> extends_u s s' 1 0"
proof (cases r)
  case None
  assume "add_node_u s pos = (r, s')"
  with None have "s' = s" using add_node_u_None by blast
  then show ?thesis using extends_u_refl [of s] extends_u_mono by blast
next
  case (Some i)
  assume "add_node_u s pos = (r, s')"
  with Some add_node_u_Some [of s pos i s'] show ?thesis
    by (auto simp: extends_u_def length_dict_set)
qed

lemma extends_u_attempt: "extends_u s (attempt_u node_id pos angle s) 1 1"
proof -
  have m: "extends_u s (add_road s node_id idx) 1 1" for idx
    using extends_u_add_road [of s node_id idx] extends_u_mono by fastforce
  have c: "extends_u s (case r of None \<Rightarrow> s1 | Some i \<Rightarrow> add_road s1 node_id i) 1 1"
    if a: "add_node_u s new_pos = (r, s1)" for r s1 new_pos
  proof (cases r)
    case None
    then show ?thesis using extends_u_add_node [OF a] extends_u_mono by fastforce
  next
    case (Some i)
    then show ?thesis
      using extends_u_trans [OF extends_u_add_node [OF a] extends_u_add_road [of s1 node_id i]] by simp
  qed
  have r: "extends_u s s 1 1" using extends_u_refl [of s] extends_u_mono by fastforce
  show ?thesis
    using m c r
    by (auto simp: attempt_u_def split: option.splits prod.splits)
qed

lemma extends_u_fold:
  "extends_u s (fold (attempt_u node_id pos) as s) (length as) (length as)"
proof (induction as arbitrary: s)
  case Nil
  then show ?case by (simp add: extends_u_refl)
next
  case (Cons a as)
  show ?case
    using extends_u_trans [OF extends_u_attempt [of s node_id pos a] Cons.IH [of "attempt_u node_id pos a s"]]
    by simp
qed

subsection \<open>The initial states\<close>

lemma init_e_eq:
  "init_e = \<lparr>road_ages = [], growth_queue = [0], current_time = 0, kd_tree = None,
             node_positions = [(0, 0)], kd_tree_dirty = True\<rparr>"
  by (simp add: init_e_def add_node_e_def is_valid_position_e_def refresh_def empty_e_def)

lemma init_s_eq: "init_s = init_e"
  by (simp add: init_e_eq init_s_def add_node_s_def is_valid_position_s_def refresh_def empty_e_def)

lemma init_u_eq:
  "init_u = \<lparr>road_ages = [], growth_queue = [0], current_time = 0, kd_tree = Some [(0, 0)],
             node_positions_u = [(0, (0, 0))], position_to_node = [(0, 0) \<mapsto> 0]\<rparr>"
  by (simp add: init_u_def add_node_u_def is_valid_position_u_def update_spatial_index_u_def
      empty_u_def)

subsection \<open>\<open>_add_node\<close>\<close>







subsection \<open>One call of \<open>grow_city\<close>\<close>

lemma grow_city_e_empty:
  "growth_queue s = [] \<Longrightarrow>
   grow_city_e s d =
     Inr (if node_positions s \<noteq> []
          then s\<lparr>growth_queue := [rng_integers 0 (length (node_positions s)) (pick d)]\<rparr> else s)"
  by (simp add: grow_city_e_def)

lemma grow_city_s_empty:
  "growth_queue s = [] \<Longrightarrow>
   grow_city_s s d =
     Inr (if node_positions s \<noteq> []
          then s\<lparr>growth_queue := [rng_integers 0 (length (node_positions s)) (pick d)]\<rparr> else s)"
  by (simp add: grow_city_s_def)

lemma grow_city_u_empty:
  "growth_queue s = [] \<Longrightarrow>
   grow_city_u s d =
     Inr (if node_positions_u s \<noteq> []
          then s\<lparr>growth_queue := [choice (map fst (node_positions_u s)) (pick d)]\<rparr> else s)"
  by (simp add: grow_city_u_def)

lemma grow_city_e_pop:
  "growth_queue s \<noteq> [] \<Longrightarrow>
   grow_city_e s d =
     (if length (node_positions s) \<le> hd (growth_queue s) then Inl IndexError
      else attempts_e (hd (growth_queue s)) (node_positions s ! hd (growth_queue s))
             (map (angles d) [0..<rng_integers 1 4 (count d)]) (popped s))"
  by (simp add: grow_city_e_def popped_def Let_def)

lemma grow_city_s_pop:
  "growth_queue s \<noteq> [] \<Longrightarrow>
   grow_city_s s d =
     (if length (node_positions s) \<le> hd (growth_queue s) then Inl IndexError
      else attempts_s (hd (growth_queue s)) (node_positions s ! hd (growth_queue s))
             (map (angle_s d) [0..<rng_integers 1 4 (count d)]) (popped s))"
  by (simp add: grow_city_s_def popped_def Let_def)

lemma grow_city_u_pop:
  "growth_queue s \<noteq> [] \<Longrightarrow>
   grow_city_u s d =
     (case map_of (node_positions_u s) (hd (growth_queue s)) of
        None \<Rightarrow> Inl KeyError
      | Some pos \<Rightarrow>
          Inr (fold (attempt_u (hd (growth_queue s)) pos)
                 (map (angles d) [0..<randint 1 3 (count d)]) (popped s)))"
  by (simp add: grow_city_u_def popped_def Let_def split: option.splits)

lemma grow_city_e_extends:
  assumes "growth_queue s \<noteq> []" "grow_city_e s d = Inr s'"
  shows "extends_e (popped s) s' 3 3"
proof -
  let ?as = "map (angles d) [0..<rng_integers 1 4 (count d)]"
  from assms have "attempts_e (hd (growth_queue s)) (node_positions s ! hd (growth_queue s)) ?as (popped s) = Inr s'"
    by (simp add: grow_city_e_pop split: if_splits)
  from extends_e_attempts [OF this] show ?thesis
    using rng_integers_1_4 [of "count d"] extends_e_mono by fastforce
qed

lemma grow_city_s_extends:
  assumes "growth_queue s \<noteq> []" "grow_city_s s d = Inr s'"
  shows "extends_e (popped s) s' 3 3"
proof -
  let ?as = "map (angle_s d) [0..<rng_integers 1 4 (count d)]"
  from assms have "attempts_s (hd (growth_queue s)) (node_positions s ! hd (growth_queue s)) ?as (popped s) = Inr s'"
    by (simp add: grow_city_s_pop split: if_splits)
  from extends_e_attempts_s [OF this] show ?thesis
    using rng_integers_1_4 [of "count d"] extends_e_mono by fastforce
qed

lemma grow_city_u_extends:
  assumes "growth_queue s \<noteq> []" "grow_city_u s d = Inr s'"
  shows "extends_u (popped s) s' 3 3"
proof -
  let ?as = "map (angles d) [0..<randint 1 3 (count d)]"
  from assms obtain pos where "s' = fold (attempt_u (hd (growth_queue s)) pos) ?as (popped s)"
    by (auto simp: grow_city_u_pop split: option.splits)
  then show ?thesis
    using extends_u_fold [of "popped s" "hd (growth_queue s)" pos ?as]
      randint_1_3 [of "count d"] extends_u_mono by fastforce
qed

subsection \<open>A first step, evaluated\<close>

lemma euclid_same_y: "euclid (a, c) (b, c) = \<bar>a - b\<bar>"
  by (simp add: euclid_def)

lemma euclid_same_x: "euclid (c, a) (c, b) = \<bar>a - b\<bar>"
  by (simp add: euclid_def)

lemma euclid_commute: "euclid p q = euclid q p"
  by (simp add: euclid_def power2_commute)

lemma euclid_nonneg [simp]: "0 \<le> euclid p q"
  by (simp add: euclid_def)

lemma euclid_self [simp]: "euclid p p = 0"
  by (simp add: euclid_def)

lemma candidates_e_angle0:
  "candidates_e (0, 0) 0 = [(3 / 100, 0), (3 / 80, 0), (9 / 200, 0), (21 / 400, 0), (3 / 50, 0)]"
  by (simp add: candidates_e_def linspace5 polar_def min_distance_def)

lemma grow_city_e_first:
  "grow_city_e init_e (fixed_draws 0 0 0) = Inr after_one_e"
proof -
  let ?s = "popped init_e"
  let ?r = "\<lparr>road_ages = [], growth_queue = [], current_time = Suc 0,
             kd_tree = Some [(0, 0)], node_positions = [(0, 0)], kd_tree_dirty = False\<rparr>"
  have r: "refresh ?s = ?r"
    by (simp add: init_e_eq popped_def refresh_def update_spatial_index_def)
  have rr: "refresh ?r = ?r"
    by (simp add: refresh_def)
  have v: "fst (is_valid_position_e ?r (3 / 100, 0))"
    by (simp add: is_valid_position_e_fst refresh_clean far_enough_def euclid_same_y min_distance_def)
  have f: "find_valid_position_e ?s (0, 0) 0 = (Some (3 / 100, 0), ?r)"
    using v by (simp add: find_valid_position_e_eq candidates_e_angle0 r del: is_valid_position_e_refresh
        flip: is_valid_position_e_refresh [of ?s])
  have n: "add_node_e ?r (3 / 100, 0) =
      (Some (Suc 0), ?r\<lparr>node_positions := [(0, 0), (3 / 100, 0)], growth_queue := [Suc 0],
         kd_tree_dirty := True\<rparr>)"
    using add_node_e_valid [OF v] by (simp add: refresh_clean)
  have m: "merge_or_create_e ?r 0 (3 / 100, 0) [(0, 0)] = after_one_e"
    by (simp add: merge_or_create_e_def n euclid_same_y min_distance_def
        add_road_def after_one_e_def)
  have a: "attempt_e 0 (0, 0) 0 ?s = Inr after_one_e"
    by (simp add: attempt_e_def f refresh_clean m)
  have q: "growth_queue init_e = [0]" "node_positions init_e = [(0, 0)]"
    by (simp_all add: init_e_eq)
  have "grow_city_e init_e (fixed_draws 0 0 0) = attempts_e 0 (0, 0) [0] (popped init_e)"
    by (simp add: grow_city_e_pop q rng_integers_def fixed_draws_def)
  then show ?thesis
    using a by simp
qed

subsection \<open>Recovery from an empty frontier\<close>

text \<open>
  Claim C4. When \<open>grow_city\<close> is called with an empty \<open>growth_queue\<close> and at least one node,
  it returns; afterwards the queue holds exactly one id, that of an existing node, and the
  nodes, the roads and the clock are what they were. (Shown for the three scripts.)
\<close>

theorem C4_recovery:
  "(growth_queue s = [] \<and> node_positions s \<noteq> [] \<longrightarrow>
      (\<exists>s'. grow_city_e s d = Inr s' \<and> growth_queue s' \<noteq> [] \<and> length (growth_queue s') = 1
            \<and> hd (growth_queue s') < length (node_positions s')
            \<and> node_positions s' = node_positions s \<and> road_ages s' = road_ages s
            \<and> current_time s' = current_time s))
   \<and> (growth_queue s = [] \<and> node_positions s \<noteq> [] \<longrightarrow>
      (\<exists>s'. grow_city_s s d = Inr s' \<and> growth_queue s' \<noteq> [] \<and> length (growth_queue s') = 1
            \<and> hd (growth_queue s') < length (node_positions s')
            \<and> node_positions s' = node_positions s \<and> road_ages s' = road_ages s
            \<and> current_time s' = current_time s))
   \<and> (growth_queue u = [] \<and> node_positions_u u \<noteq> [] \<longrightarrow>
      (\<exists>u'. grow_city_u u d = Inr u' \<and> growth_queue u' \<noteq> [] \<and> length (growth_queue u') = 1
            \<and> hd (growth_queue u') \<in> fst ` set (node_positions_u u')
            \<and> node_positions_u u' = node_positions_u u \<and> road_ages u' = road_ages u
            \<and> current_time u' = current_time u))"
proof (intro conjI impI)
  assume a: "growth_queue s = [] \<and> node_positions s \<noteq> []"
  then have "rng_integers 0 (length (node_positions s)) (pick d) < length (node_positions s)"
    by (simp add: rng_integers_0)
  with a show "\<exists>s'. grow_city_e s d = Inr s' \<and> growth_queue s' \<noteq> [] \<and> length (growth_queue s') = 1
            \<and> hd (growth_queue s') < length (node_positions s')
            \<and> node_positions s' = node_positions s \<and> road_ages s' = road_ages s
            \<and> current_time s' = current_time s"
    by (simp add: grow_city_e_empty)
  from a \<open>rng_integers 0 (length (node_positions s)) (pick d) < length (node_positions s)\<close>
  show "\<exists>s'. grow_city_s s d = Inr s' \<and> growth_queue s' \<noteq> [] \<and> length (growth_queue s') = 1
            \<and> hd (growth_queue s') < length (node_positions s')
            \<and> node_positions s' = node_positions s \<and> road_ages s' = road_ages s
            \<and> current_time s' = current_time s"
    by (simp add: grow_city_s_empty)
next
  assume a: "growth_queue u = [] \<and> node_positions_u u \<noteq> []"
  let ?ks = "map fst (node_positions_u u)"
  have "pick d mod length ?ks < length ?ks" using a by simp
  then have "choice ?ks (pick d) \<in> set ?ks"
    unfolding choice_def by (rule nth_mem)
  with a show "\<exists>u'. grow_city_u u d = Inr u' \<and> growth_queue u' \<noteq> [] \<and> length (growth_queue u') = 1
            \<and> hd (growth_queue u') \<in> fst ` set (node_positions_u u')
            \<and> node_positions_u u' = node_positions_u u \<and> road_ages u' = road_ages u
            \<and> current_time u' = current_time u"
    by (simp add: grow_city_u_empty)
qed

theorem C4_recovery_witness:
  "growth_queue (init_e\<lparr>growth_queue := []\<rparr>) = []
   \<and> node_positions (init_e\<lparr>growth_queue := []\<rparr>) \<noteq> []
   \<and> growth_queue (init_u\<lparr>growth_queue := []\<rparr>) = []
   \<and> node_positions_u (init_u\<lparr>growth_queue := []\<rparr>) \<noteq> []
   \<and> (\<exists>s'. grow_city_e (init_e\<lparr>growth_queue := []\<rparr>) (fixed_draws 5 0 0) = Inr s'
          \<and> growth_queue s' = [0] \<and> node_positions s' = [(0, 0)] \<and> road_ages s' = []
          \<and> current_time s' = 0)
   \<and> (\<exists>s'. grow_city_s (init_e\<lparr>growth_queue := []\<rparr>) (fixed_draws 5 0 0) = Inr s'
          \<and> growth_queue s' = [0] \<and> node_positions s' = [(0, 0)] \<and> road_ages s' = []
          \<and> current_time s' = 0)
   \<and> (\<exists>u'. grow_city_u (init_u\<lparr>growth_queue := []\<rparr>) (fixed_draws 5 0 0) = Inr u'
          \<and> growth_queue u' = [0] \<and> node_positions_u u' = [(0, (0, 0))] \<and> road_ages u' = []
          \<and> current_time u' = 0)"
proof -
  let ?s = "init_e\<lparr>growth_queue := []\<rparr>"
  let ?u = "init_u\<lparr>growth_queue := []\<rparr>"
  have h: "growth_queue ?s = [] \<and> node_positions ?s \<noteq> []"
    "growth_queue ?u = [] \<and> node_positions_u ?u \<noteq> []"
    by (simp_all add: init_e_eq init_u_eq)
  note w = C4_recovery [of ?s "fixed_draws 5 0 0" ?u]
  from w h obtain s1 where 1: "grow_city_e ?s (fixed_draws 5 0 0) = Inr s1" "length (growth_queue s1) = 1"
    "hd (growth_queue s1) < length (node_positions s1)" "node_positions s1 = node_positions ?s"
    "road_ages s1 = road_ages ?s" "current_time s1 = current_time ?s"
    by blast
  from w h obtain s2 where 2: "grow_city_s ?s (fixed_draws 5 0 0) = Inr s2" "length (growth_queue s2) = 1"
    "hd (growth_queue s2) < length (node_positions s2)" "node_positions s2 = node_positions ?s"
    "road_ages s2 = road_ages ?s" "current_time s2 = current_time ?s"
    by blast
  from w h obtain u1 where 3: "grow_city_u ?u (fixed_draws 5 0 0) = Inr u1" "length (growth_queue u1) = 1"
    "hd (growth_queue u1) \<in> fst ` set (node_positions_u u1)" "node_positions_u u1 = node_positions_u ?u"
    "road_ages u1 = road_ages ?u" "current_time u1 = current_time ?u"
    by blast
  have q1: "growth_queue s1 = [0]"
    using 1 by (cases "growth_queue s1") (simp_all add: init_e_eq)
  have q2: "growth_queue s2 = [0]"
    using 2 by (cases "growth_queue s2") (simp_all add: init_e_eq)
  have q3: "growth_queue u1 = [0]"
    using 3 by (cases "growth_queue u1") (simp_all add: init_u_eq)
  have e: "\<exists>s'. grow_city_e ?s (fixed_draws 5 0 0) = Inr s'
          \<and> growth_queue s' = [0] \<and> node_positions s' = [(0, 0)] \<and> road_ages s' = []
          \<and> current_time s' = 0"
    using 1 q1 by (intro exI [of _ s1]) (simp add: init_e_eq)
  have s: "\<exists>s'. grow_city_s ?s (fixed_draws 5 0 0) = Inr s'
          \<and> growth_queue s' = [0] \<and> node_positions s' = [(0, 0)] \<and> road_ages s' = []
          \<and> current_time s' = 0"
    using 2 q2 by (intro exI [of _ s2]) (simp add: init_e_eq)
  have u: "\<exists>u'. grow_city_u ?u (fixed_draws 5 0 0) = Inr u'
          \<and> growth_queue u' = [0] \<and> node_positions_u u' = [(0, (0, 0))] \<and> road_ages u' = []
          \<and> current_time u' = 0"
    using 3 q3 by (intro exI [of _ u1]) (simp add: init_u_eq)
  show ?thesis
    using h e s u by simp
qed

subsection \<open>Growth bound of one call\<close>

text \<open>
  Claim C8. For every state, a call of \<open>grow_city\<close> that returns has added at most three
  nodes and at most three roads, and removed none. (Shown for the three scripts.)
\<close>

theorem C8_growth_bound:
  "(grow_city_e s d = Inr s' \<longrightarrow>
      length (node_positions s) \<le> length (node_positions s')
      \<and> length (node_positions s') \<le> length (node_positions s) + 3
      \<and> length (road_ages s) \<le> length (road_ages s')
      \<and> length (road_ages s') \<le> length (road_ages s) + 3)
   \<and> (grow_city_s s d = Inr s'' \<longrightarrow>
      length (node_positions s) \<le> length (node_positions s'')
      \<and> length (node_positions s'') \<le> length (node_positions s) + 3
      \<and> length (road_ages s) \<le> length (road_ages s'')
      \<and> length (road_ages s'') \<le> length (road_ages s) + 3)
   \<and> (grow_city_u u d = Inr u' \<longrightarrow>
      length (node_positions_u u) \<le> length (node_positions_u u')
      \<and> length (node_positions_u u') \<le> length (node_positions_u u) + 3
      \<and> length (road_ages u) \<le> length (road_ages u')
      \<and> length (road_ages u') \<le> length (road_ages u) + 3)"
proof (intro conjI impI)
  assume a: "grow_city_e s d = Inr s'"
  have "length (node_positions s) \<le> length (node_positions s')
      \<and> length (node_positions s') \<le> length (node_positions s) + 3
      \<and> length (road_ages s) \<le> length (road_ages s')
      \<and> length (road_ages s') \<le> length (road_ages s) + 3"
  proof (cases "growth_queue s = []")
    case True
    then show ?thesis using a by (auto simp: grow_city_e_empty split: if_splits)
  next
    case False
    from grow_city_e_extends [OF False a] show ?thesis
      by (auto simp: extends_e_def popped_def)
  qed
  then show "length (node_positions s) \<le> length (node_positions s')"
    "length (node_positions s') \<le> length (node_positions s) + 3"
    "length (road_ages s) \<le> length (road_ages s')"
    "length (road_ages s') \<le> length (road_ages s) + 3"
    by simp_all
next
  assume a: "grow_city_s s d = Inr s''"
  have "length (node_positions s) \<le> length (node_positions s'')
      \<and> length (node_positions s'') \<le> length (node_positions s) + 3
      \<and> length (road_ages s) \<le> length (road_ages s'')
      \<and> length (road_ages s'') \<le> length (road_ages s) + 3"
  proof (cases "growth_queue s = []")
    case True
    then show ?thesis using a by (auto simp: grow_city_s_empty split: if_splits)
  next
    case False
    from grow_city_s_extends [OF False a] show ?thesis
      by (auto simp: extends_e_def popped_def)
  qed
  then show "length (node_positions s) \<le> length (node_positions s'')"
    "length (node_positions s'') \<le> length (node_positions s) + 3"
    "length (road_ages s) \<le> length (road_ages s'')"
    "length (road_ages s'') \<le> length (road_ages s) + 3"
    by simp_all
next
  assume a: "grow_city_u u d = Inr u'"
  have "length (node_positions_u u) \<le> length (node_positions_u u')
      \<and> length (node_positions_u u') \<le> length (node_positions_u u) + 3
      \<and> length (road_ages u) \<le> length (road_ages u')
      \<and> length (road_ages u') \<le> length (road_ages u) + 3"
  proof (cases "growth_queue u = []")
    case True
    then show ?thesis using a by (auto simp: grow_city_u_empty split: if_splits)
  next
    case False
    from grow_city_u_extends [OF False a] show ?thesis
      by (auto simp: extends_u_def popped_def)
  qed
  then show "length (node_positions_u u) \<le> length (node_positions_u u')"
    "length (node_positions_u u') \<le> length (node_positions_u u) + 3"
    "length (road_ages u) \<le> length (road_ages u')"
    "length (road_ages u') \<le> length (road_ages u) + 3"
    by simp_all
qed

theorem C8_growth_bound_witness:
  "grow_city_e init_e (fixed_draws 0 0 0) = Inr after_one_e
   \<and> length (node_positions init_e) = 1 \<and> length (node_positions after_one_e) = 2
   \<and> length (road_ages init_e) = 0 \<and> length (road_ages after_one_e) = 1
   \<and> length (node_positions after_one_e) \<le> length (node_positions init_e) + 3
   \<and> length (road_ages after_one_e) \<le> length (road_ages init_e) + 3"
  using C8_growth_bound [of init_e "fixed_draws 0 0 0" after_one_e] grow_city_e_first
  by (simp add: init_e_eq after_one_e_def)

subsection \<open>Invariants of the lazily rebuilt index\<close>

lemma min_distance_pos: "0 < min_distance"
  by (simp add: min_distance_def)

lemma reject_e_merge: "min_distance * (1 / 2) < reject_e"
  by (simp add: reject_e_def min_distance_def)

lemma index_ok_refresh: "index_ok s \<Longrightarrow> kd_tree (refresh s) = Some (node_positions s)"
  by (auto simp: index_ok_def refresh_tree)

lemma index_ok_refresh_ok: "index_ok s \<Longrightarrow> index_ok (refresh s)"
  by (auto simp: index_ok_def refresh_tree)

lemma valid_e_iff:
  "index_ok s \<Longrightarrow>
   fst (is_valid_position_e s p) = (\<forall>q \<in> set (node_positions s). reject_e \<le> euclid q p)"
  by (simp add: is_valid_position_e_fst index_ok_refresh far_enough_iff reject_e_def)

lemma nearest_far:
  assumes "\<forall>q \<in> set ps. b \<le> euclid q p" "ps \<noteq> []"
  shows "\<exists>d i. nearest ps p = Some (d, i) \<and> i < length ps \<and> b \<le> d"
proof -
  from assms(2) obtain d i where n: "nearest ps p = Some (d, i)"
    by (cases "nearest ps p") auto
  from nearest_Some [OF n] assms(1) show ?thesis
    using n by auto
qed

lemma spaced_snoc:
  assumes "spaced b ps" "\<forall>q \<in> set ps. b \<le> euclid q p"
  shows "spaced b (ps @ [p])"
  unfolding spaced_def
proof (intro allI impI)
  fix i j
  assume i: "i < length (ps @ [p])" and j: "j < length (ps @ [p])" and ne: "i \<noteq> j"
  consider "i < length ps" "j < length ps" | "i < length ps" "j = length ps"
    | "i = length ps" "j < length ps"
    using i j ne by fastforce
  then show "b \<le> euclid ((ps @ [p]) ! i) ((ps @ [p]) ! j)"
  proof cases
    case 1
    then show ?thesis using assms(1) ne by (simp add: spaced_def nth_append)
  next
    case 2
    then show ?thesis using assms(2) by (simp add: nth_append)
  next
    case 3
    then show ?thesis using assms(2) by (simp add: nth_append euclid_commute [of p])
  qed
qed

lemma created_eq_add_road:
  assumes "roads_ok s" "node_id < length (node_positions s)"
  shows "add_road ((refresh s)\<lparr>node_positions := node_positions s @ [p],
                  growth_queue := growth_queue s @ [length (node_positions s)],
                  kd_tree_dirty := True\<rparr>) node_id (length (node_positions s)) = created s node_id p"
proof -
  let ?n = "length (node_positions s)"
  have "(node_id, ?n) \<notin> set (map fst (road_ages s))"
    using assms(1) unfolding roads_ok_def by fastforce
  then have "map_of (road_ages s) (node_id, ?n) = None"
    by (simp add: map_of_eq_None_iff)
  then show ?thesis
    using assms(2) by (simp add: add_road_def created_def min_def max_def)
qed

lemma merge_or_create_e_creates:
  assumes "index_ok s" "roads_ok s" "node_id < length (node_positions s)"
    "fst (is_valid_position_e s p)"
  shows "merge_or_create_e (refresh s) node_id p (node_positions s) = created s node_id p"
proof -
  from assms(1,4) have far: "\<forall>q \<in> set (node_positions s). reject_e \<le> euclid q p"
    by (simp add: valid_e_iff)
  from assms(1) have ne: "node_positions s \<noteq> []" by (simp add: index_ok_def)
  from nearest_far [OF far ne] obtain d i where
    n: "nearest (node_positions s) p = Some (d, i)" and d: "reject_e \<le> d"
    by blast
  have nm: "\<not> d < min_distance * (1 / 2)" using d reject_e_merge by linarith
  have v: "fst (is_valid_position_e (refresh s) p)" using assms(4) by simp
  show ?thesis
    using n nm add_node_e_valid [OF v] created_eq_add_road [OF assms(2,3), of p]
    by (simp add: merge_or_create_e_def)
qed

lemma attempt_e_eq:
  assumes "index_ok s" "roads_ok s" "node_id < length (node_positions s)"
  shows "attempt_e node_id pos angle s =
     Inr (case find (\<lambda>p. fst (is_valid_position_e s p)) (candidates_e pos angle) of
            None \<Rightarrow> refresh s
          | Some p \<Rightarrow> created s node_id p)"
proof (cases "find (\<lambda>p. fst (is_valid_position_e s p)) (candidates_e pos angle)")
  case None
  then show ?thesis by (simp add: attempt_e_def find_valid_position_e_eq)
next
  case (Some p)
  then have v: "fst (is_valid_position_e s p)"
    by (auto simp: find_Some_iff)
  show ?thesis
    using Some merge_or_create_e_creates [OF assms v] index_ok_refresh [OF assms(1)]
    by (simp add: attempt_e_def find_valid_position_e_eq)
qed

lemma wf_e_refresh: "wf_e s \<Longrightarrow> wf_e (refresh s)"
  by (auto simp: wf_e_def index_ok_def refresh_tree queue_ok_def roads_ok_def roads_canonical_def)

lemma wf_e_created:
  assumes "wf_e s" "node_id < length (node_positions s)" "fst (is_valid_position_e s p)"
  shows "wf_e (created s node_id p)"
proof -
  from assms(1) have io: "index_ok s" and q: "queue_ok s" and r: "roads_ok s"
    and sp: "spaced reject_e (node_positions s)"
    by (simp_all add: wf_e_def)
  from io assms(3) have far: "\<forall>q \<in> set (node_positions s). reject_e \<le> euclid q p"
    by (simp add: valid_e_iff)
  have 1: "index_ok (created s node_id p)"
    by (simp add: index_ok_def created_def)
  have 2: "queue_ok (created s node_id p)"
    using q by (auto simp: queue_ok_def created_def)
  have "(node_id, length (node_positions s)) \<notin> set (map fst (road_ages s))"
    using r unfolding roads_ok_def by fastforce
  then have 3: "roads_ok (created s node_id p)"
    using r assms(2) by (auto simp: roads_ok_def roads_canonical_def created_def)
  have 4: "spaced reject_e (node_positions (created s node_id p))"
    using spaced_snoc [OF sp far] by (simp add: created_def)
  show ?thesis using 1 2 3 4 by (simp add: wf_e_def)
qed

lemma wf_e_attempt:
  assumes "wf_e s" "node_id < length (node_positions s)"
  shows "\<exists>s'. attempt_e node_id pos angle s = Inr s' \<and> wf_e s'
            \<and> length (node_positions s) \<le> length (node_positions s')"
proof -
  from assms(1) have io: "index_ok s" and r: "roads_ok s" by (simp_all add: wf_e_def)
  show ?thesis
  proof (cases "find (\<lambda>p. fst (is_valid_position_e s p)) (candidates_e pos angle)")
    case None
    then show ?thesis
      using attempt_e_eq [OF io r assms(2), of pos angle] wf_e_refresh [OF assms(1)] by simp
  next
    case (Some p)
    then have v: "fst (is_valid_position_e s p)" by (auto simp: find_Some_iff)
    show ?thesis
      using Some attempt_e_eq [OF io r assms(2), of pos angle] wf_e_created [OF assms v]
      by (simp add: created_def)
  qed
qed

lemma wf_e_attempts:
  assumes "wf_e s" "node_id < length (node_positions s)"
  shows "\<exists>s'. attempts_e node_id pos as s = Inr s' \<and> wf_e s'"
  using assms
proof (induction as arbitrary: s)
  case Nil
  then show ?case by simp
next
  case (Cons a as)
  from wf_e_attempt [OF Cons.prems, of pos a] obtain s1 where
    1: "attempt_e node_id pos a s = Inr s1" "wf_e s1"
      "length (node_positions s) \<le> length (node_positions s1)"
    by blast
  then have "node_id < length (node_positions s1)" using Cons.prems(2) by simp
  from Cons.IH [OF 1(2) this] show ?case using 1(1) by simp
qed

lemma wf_e_popped: "wf_e s \<Longrightarrow> wf_e (popped s)"
proof -
  assume w: "wf_e s"
  have "set (tl (growth_queue s)) \<subseteq> set (growth_queue s)"
    by (cases "growth_queue s") auto
  then show ?thesis
    using w
    by (auto simp: wf_e_def popped_def index_ok_def queue_ok_def roads_ok_def roads_canonical_def)
qed

lemma wf_e_init: "wf_e init_e"
  by (simp add: wf_e_def init_e_eq index_ok_def queue_ok_def roads_ok_def roads_canonical_def
      spaced_def)

lemma wf_e_grow_city:
  assumes "wf_e s"
  shows "\<exists>s'. grow_city_e s d = Inr s' \<and> wf_e s'"
proof (cases "growth_queue s = []")
  case True
  have ne: "node_positions s \<noteq> []" using assms by (simp add: wf_e_def index_ok_def)
  then have "rng_integers 0 (length (node_positions s)) (pick d) < length (node_positions s)"
    by (simp add: rng_integers_0)
  then have "wf_e (s\<lparr>growth_queue := [rng_integers 0 (length (node_positions s)) (pick d)]\<rparr>)"
    using assms by (simp add: wf_e_def index_ok_def queue_ok_def roads_ok_def roads_canonical_def)
  then show ?thesis using True ne by (simp add: grow_city_e_empty)
next
  case False
  then have h: "hd (growth_queue s) < length (node_positions s)"
    using assms by (simp add: wf_e_def queue_ok_def)
  then have h': "hd (growth_queue s) < length (node_positions (popped s))"
    by (simp add: popped_def)
  from wf_e_attempts [OF wf_e_popped [OF assms] h'] show ?thesis
    using False h by (simp add: grow_city_e_pop)
qed

lemma reach_e_wf: "reach_e s \<Longrightarrow> wf_e s"
proof (induction rule: reach_e.induct)
  case reach_e_init
  then show ?case by (rule wf_e_init)
next
  case (reach_e_step s d s')
  then show ?case using wf_e_grow_city [of s d] by auto
qed

lemma reach_e_total: "reach_e s \<Longrightarrow> \<exists>s'. grow_city_e s d = Inr s' \<and> reach_e s'"
  using wf_e_grow_city [OF reach_e_wf, of s d] reach_e_step by blast

lemma reach_e_run: "reach_e s \<Longrightarrow> \<exists>s'. run_e s ds = Inr s' \<and> reach_e s'"
proof (induction ds arbitrary: s)
  case Nil
  then show ?case by simp
next
  case (Cons d ds)
  from reach_e_total [OF Cons.prems, of d] obtain s1 where
    "grow_city_e s d = Inr s1" "reach_e s1" by blast
  then show ?case using Cons.IH [of s1] by simp
qed

subsection \<open>The same invariants for the Simcity script\<close>

lemma reject_s_merge: "min_distance * (1 / 2) < reject_s"
  by (simp add: reject_s_def min_distance_def)

lemma valid_s_iff:
  "index_ok s \<Longrightarrow>
   fst (is_valid_position_s s p) = (\<forall>q \<in> set (node_positions s). reject_s \<le> euclid q p)"
  by (simp add: is_valid_position_s_fst index_ok_refresh far_enough_iff reject_s_def)

lemma merge_or_create_s_creates:
  assumes "index_ok s" "roads_ok s" "node_id < length (node_positions s)"
    "fst (is_valid_position_s s p)"
  shows "merge_or_create_s (refresh s) node_id p (node_positions s) = created s node_id p"
proof -
  from assms(1,4) have far: "\<forall>q \<in> set (node_positions s). reject_s \<le> euclid q p"
    by (simp add: valid_s_iff)
  from assms(1) have ne: "node_positions s \<noteq> []" by (simp add: index_ok_def)
  from nearest_far [OF far ne] obtain d i where
    n: "nearest (node_positions s) p = Some (d, i)" and d: "reject_s \<le> d"
    by blast
  have nm: "\<not> d < min_distance * (1 / 2)" using d reject_s_merge by linarith
  have v: "fst (is_valid_position_s (refresh s) p)" using assms(4) by simp
  show ?thesis
    using n nm add_node_s_valid [OF v] created_eq_add_road [OF assms(2,3), of p]
    by (simp add: merge_or_create_s_def)
qed

lemma attempt_s_eq:
  assumes "index_ok s" "roads_ok s" "node_id < length (node_positions s)"
  shows "attempt_s node_id pos angle s =
     Inr (case find (\<lambda>p. fst (is_valid_position_s s p)) (candidates_s pos angle) of
            None \<Rightarrow> refresh s
          | Some p \<Rightarrow> created s node_id p)"
proof (cases "find (\<lambda>p. fst (is_valid_position_s s p)) (candidates_s pos angle)")
  case None
  then show ?thesis by (simp add: attempt_s_def find_valid_position_s_eq)
next
  case (Some p)
  then have v: "fst (is_valid_position_s s p)"
    by (auto simp: find_Some_iff)
  show ?thesis
    using Some merge_or_create_s_creates [OF assms v] index_ok_refresh [OF assms(1)]
    by (simp add: attempt_s_def find_valid_position_s_eq)
qed

lemma wf_s_refresh: "wf_s s \<Longrightarrow> wf_s (refresh s)"
  by (auto simp: wf_s_def index_ok_def refresh_tree queue_ok_def roads_ok_def roads_canonical_def)

lemma wf_s_created:
  assumes "wf_s s" "node_id < length (node_positions s)" "fst (is_valid_position_s s p)"
  shows "wf_s (created s node_id p)"
proof -
  from assms(1) have io: "index_ok s" and q: "queue_ok s" and r: "roads_ok s"
    and sp: "spaced reject_s (node_positions s)"
    by (simp_all add: wf_s_def)
  from io assms(3) have far: "\<forall>q \<in> set (node_positions s). reject_s \<le> euclid q p"
    by (simp add: valid_s_iff)
  have 1: "index_ok (created s node_id p)"
    by (simp add: index_ok_def created_def)
  have 2: "queue_ok (created s node_id p)"
    using q by (auto simp: queue_ok_def created_def)
  have "(node_id, length (node_positions s)) \<notin> set (map fst (road_ages s))"
    using r unfolding roads_ok_def by fastforce
  then have 3: "roads_ok (created s node_id p)"
    using r assms(2) by (auto simp: roads_ok_def roads_canonical_def created_def)
  have 4: "spaced reject_s (node_positions (created s node_id p))"
    using spaced_snoc [OF sp far] by (simp add: created_def)
  show ?thesis using 1 2 3 4 by (simp add: wf_s_def)
qed

lemma wf_s_attempt:
  assumes "wf_s s" "node_id < length (node_positions s)"
  shows "\<exists>s'. attempt_s node_id pos angle s = Inr s' \<and> wf_s s'
            \<and> length (node_positions s) \<le> length (node_positions s')"
proof -
  from assms(1) have io: "index_ok s" and r: "roads_ok s" by (simp_all add: wf_s_def)
  show ?thesis
  proof (cases "find (\<lambda>p. fst (is_valid_position_s s p)) (candidates_s pos angle)")
    case None
    then show ?thesis
      using attempt_s_eq [OF io r assms(2), of pos angle] wf_s_refresh [OF assms(1)] by simp
  next
    case (Some p)
    then have v: "fst (is_valid_position_s s p)" by (auto simp: find_Some_iff)
    show ?thesis
      using Some attempt_s_eq [OF io r assms(2), of pos angle] wf_s_created [OF assms v]
      by (simp add: created_def)
  qed
qed

lemma wf_s_attempts:
  assumes "wf_s s" "node_id < length (node_positions s)"
  shows "\<exists>s'. attempts_s node_id pos as s = Inr s' \<and> wf_s s'"
  using assms
proof (induction as arbitrary: s)
  case Nil
  then show ?case by simp
next
  case (Cons a as)
  from wf_s_attempt [OF Cons.prems, of pos a] obtain s1 where
    1: "attempt_s node_id pos a s = Inr s1" "wf_s s1"
      "length (node_positions s) \<le> length (node_positions s1)"
    by blast
  then have "node_id < length (node_positions s1)" using Cons.prems(2) by simp
  from Cons.IH [OF 1(2) this] show ?case using 1(1) by simp
qed

lemma wf_s_popped: "wf_s s \<Longrightarrow> wf_s (popped s)"
proof -
  assume w: "wf_s s"
  have "set (tl (growth_queue s)) \<subseteq> set (growth_queue s)"
    by (cases "growth_queue s") auto
  then show ?thesis
    using w
    by (auto simp: wf_s_def popped_def index_ok_def queue_ok_def roads_ok_def roads_canonical_def)
qed

lemma wf_s_init: "wf_s init_s"
  by (simp add: wf_s_def init_s_eq init_e_eq index_ok_def queue_ok_def roads_ok_def roads_canonical_def
      spaced_def)

lemma wf_s_grow_city:
  assumes "wf_s s"
  shows "\<exists>s'. grow_city_s s d = Inr s' \<and> wf_s s'"
proof (cases "growth_queue s = []")
  case True
  have ne: "node_positions s \<noteq> []" using assms by (simp add: wf_s_def index_ok_def)
  then have "rng_integers 0 (length (node_positions s)) (pick d) < length (node_positions s)"
    by (simp add: rng_integers_0)
  then have "wf_s (s\<lparr>growth_queue := [rng_integers 0 (length (node_positions s)) (pick d)]\<rparr>)"
    using assms by (simp add: wf_s_def index_ok_def queue_ok_def roads_ok_def roads_canonical_def)
  then show ?thesis using True ne by (simp add: grow_city_s_empty)
next
  case False
  then have h: "hd (growth_queue s) < length (node_positions s)"
    using assms by (simp add: wf_s_def queue_ok_def)
  then have h': "hd (growth_queue s) < length (node_positions (popped s))"
    by (simp add: popped_def)
  from wf_s_attempts [OF wf_s_popped [OF assms] h'] show ?thesis
    using False h by (simp add: grow_city_s_pop)
qed

lemma reach_s_wf: "reach_s s \<Longrightarrow> wf_s s"
proof (induction rule: reach_s.induct)
  case reach_s_init
  then show ?case by (rule wf_s_init)
next
  case (reach_s_step s d s')
  then show ?case using wf_s_grow_city [of s d] by auto
qed

lemma reach_s_total: "reach_s s \<Longrightarrow> \<exists>s'. grow_city_s s d = Inr s' \<and> reach_s s'"
  using wf_s_grow_city [OF reach_s_wf, of s d] reach_s_step by blast

lemma reach_s_run: "reach_s s \<Longrightarrow> \<exists>s'. run_s s ds = Inr s' \<and> reach_s s'"
proof (induction ds arbitrary: s)
  case Nil
  then show ?case by simp
next
  case (Cons d ds)
  from reach_s_total [OF Cons.prems, of d] obtain s1 where
    "grow_city_s s d = Inr s1" "reach_s s1" by blast
  then show ?case using Cons.IH [of s1] by simp
qed

subsection \<open>The spacing invariant\<close>

lemma reach_e_after_one: "reach_e after_one_e"
  using reach_e_step [OF reach_e_init grow_city_e_first] .

text \<open>
  Claim C1, for the scripts that rebuild the index lazily. In every state reachable from the
  initial state by calls of \<open>grow_city\<close>, any two different nodes are at least \<open>min_distance\<close>
  apart in the enhance script, and at least \<open>0.9 * min_distance\<close> (the threshold of its
  validity check) apart in the Simcity script.
\<close>

theorem C1_spacing_lazy:
  "(reach_e s \<longrightarrow> spaced min_distance (node_positions s))
   \<and> (reach_s s \<longrightarrow> spaced (min_distance * (9 / 10)) (node_positions s))"
  using reach_e_wf [of s] reach_s_wf [of s]
  by (auto simp: wf_e_def wf_s_def reject_e_def reject_s_def)

theorem C1_spacing_lazy_witness:
  "reach_e after_one_e \<and> node_positions after_one_e = [(0, 0), (3 / 100, 0)]
   \<and> min_distance \<le> euclid (0, 0) (3 / 100, 0)"
proof -
  have "spaced min_distance (node_positions after_one_e)"
    using C1_spacing_lazy [of after_one_e] reach_e_after_one by blast
  then have "(0::nat) < length (node_positions after_one_e) \<longrightarrow> 1 < length (node_positions after_one_e)
      \<longrightarrow> (0::nat) \<noteq> 1 \<longrightarrow> min_distance \<le> euclid (node_positions after_one_e ! 0) (node_positions after_one_e ! 1)"
    unfolding spaced_def by blast
  then have "min_distance \<le> euclid (0, 0) (3 / 100, 0)"
    by (simp add: after_one_e_def)
  then show ?thesis
    using reach_e_after_one by (simp add: after_one_e_def)
qed

subsection \<open>The clock\<close>

lemma grow_city_e_time:
  "grow_city_e s d = Inr s' \<Longrightarrow>
   current_time s' = current_time s + (if growth_queue s = [] then 0 else 1)"
proof (cases "growth_queue s = []")
  case True
  assume "grow_city_e s d = Inr s'"
  with True show ?thesis by (auto simp: grow_city_e_empty split: if_splits)
next
  case False
  assume "grow_city_e s d = Inr s'"
  from grow_city_e_extends [OF False this] False show ?thesis
    by (simp add: extends_e_def popped_def)
qed

lemma grow_city_s_time:
  "grow_city_s s d = Inr s' \<Longrightarrow>
   current_time s' = current_time s + (if growth_queue s = [] then 0 else 1)"
proof (cases "growth_queue s = []")
  case True
  assume "grow_city_s s d = Inr s'"
  with True show ?thesis by (auto simp: grow_city_s_empty split: if_splits)
next
  case False
  assume "grow_city_s s d = Inr s'"
  from grow_city_s_extends [OF False this] False show ?thesis
    by (simp add: extends_e_def popped_def)
qed

lemma grow_city_u_time:
  "grow_city_u s d = Inr s' \<Longrightarrow>
   current_time s' = current_time s + (if growth_queue s = [] then 0 else 1)"
proof (cases "growth_queue s = []")
  case True
  assume "grow_city_u s d = Inr s'"
  with True show ?thesis by (auto simp: grow_city_u_empty split: if_splits)
next
  case False
  assume "grow_city_u s d = Inr s'"
  from grow_city_u_extends [OF False this] False show ?thesis
    by (simp add: extends_u_def popped_def)
qed

lemma run_e_time:
  "run_e s ds = Inr s' \<Longrightarrow>
   current_time s \<le> current_time s' \<and> current_time s' \<le> current_time s + length ds"
proof (induction ds arbitrary: s)
  case Nil
  then show ?case by simp
next
  case (Cons d ds)
  then obtain s1 where 1: "grow_city_e s d = Inr s1" and 2: "run_e s1 ds = Inr s'"
    by (auto split: sum.splits)
  from grow_city_e_time [OF 1] Cons.IH [OF 2] show ?case by (auto split: if_splits)
qed

lemma run_s_time:
  "run_s s ds = Inr s' \<Longrightarrow>
   current_time s \<le> current_time s' \<and> current_time s' \<le> current_time s + length ds"
proof (induction ds arbitrary: s)
  case Nil
  then show ?case by simp
next
  case (Cons d ds)
  then obtain s1 where 1: "grow_city_s s d = Inr s1" and 2: "run_s s1 ds = Inr s'"
    by (auto split: sum.splits)
  from grow_city_s_time [OF 1] Cons.IH [OF 2] show ?case by (auto split: if_splits)
qed

lemma run_u_time:
  "run_u s ds = Inr s' \<Longrightarrow>
   current_time s \<le> current_time s' \<and> current_time s' \<le> current_time s + length ds"
proof (induction ds arbitrary: s)
  case Nil
  then show ?case by simp
next
  case (Cons d ds)
  then obtain s1 where 1: "grow_city_u s d = Inr s1" and 2: "run_u s1 ds = Inr s'"
    by (auto split: sum.splits)
  from grow_city_u_time [OF 1] Cons.IH [OF 2] show ?case by (auto split: if_splits)
qed

lemma keys_dict_set: "fst ` set (dict_set k v items) = insert k (fst ` set items)"
proof -
  have "dom (map_of (dict_set k v items)) = insert k (dom (map_of items))"
    by (simp add: map_of_dict_set)
  then show ?thesis by (simp add: dom_map_of_conv_image_fst)
qed

lemma queue_ok_u_add_road [simp]: "queue_ok_u (add_road s a b) = queue_ok_u s"
  using add_road_cases [of s a b] by (auto simp: queue_ok_u_def)

lemma queue_ok_u_add_node:
  "queue_ok_u s \<Longrightarrow> add_node_u s pos = (r, s') \<Longrightarrow> queue_ok_u s'"
proof (cases r)
  case None
  assume "queue_ok_u s" "add_node_u s pos = (r, s')"
  with None show ?thesis using add_node_u_None by blast
next
  case (Some i)
  assume "queue_ok_u s" "add_node_u s pos = (r, s')"
  with Some add_node_u_Some [of s pos i s'] show ?thesis
    by (auto simp: queue_ok_u_def keys_dict_set)
qed

lemma queue_ok_u_attempt: "queue_ok_u s \<Longrightarrow> queue_ok_u (attempt_u node_id pos angle s)"
  using queue_ok_u_add_node
  by (auto simp: attempt_u_def split: option.splits prod.splits)

lemma queue_ok_u_fold: "queue_ok_u s \<Longrightarrow> queue_ok_u (fold (attempt_u node_id pos) as s)"
  by (induction as arbitrary: s) (auto simp: queue_ok_u_attempt)

lemma queue_ok_u_popped: "queue_ok_u s \<Longrightarrow> queue_ok_u (popped s)"
proof -
  assume w: "queue_ok_u s"
  have "set (tl (growth_queue s)) \<subseteq> set (growth_queue s)"
    by (cases "growth_queue s") auto
  then show ?thesis using w by (auto simp: queue_ok_u_def popped_def)
qed

lemma queue_ok_u_grow_city:
  assumes "queue_ok_u s"
  shows "\<exists>s'. grow_city_u s d = Inr s' \<and> queue_ok_u s'"
proof (cases "growth_queue s = []")
  case True
  show ?thesis
  proof (cases "node_positions_u s = []")
    case True
    then show ?thesis using assms \<open>growth_queue s = []\<close> by (simp add: grow_city_u_empty)
  next
    case False
    let ?ks = "map fst (node_positions_u s)"
    have "pick d mod length ?ks < length ?ks" using False by simp
    then have "choice ?ks (pick d) \<in> set ?ks"
      unfolding choice_def by (rule nth_mem)
    then show ?thesis
      using False \<open>growth_queue s = []\<close> by (simp add: grow_city_u_empty queue_ok_u_def)
  qed
next
  case False
  then have "hd (growth_queue s) \<in> fst ` set (node_positions_u s)"
    using assms by (simp add: queue_ok_u_def)
  then obtain pos where "map_of (node_positions_u s) (hd (growth_queue s)) = Some pos"
    by (metis domD dom_map_of_conv_image_fst)
  then show ?thesis
    using False queue_ok_u_fold [OF queue_ok_u_popped [OF assms]]
    by (simp add: grow_city_u_pop)
qed

lemma reach_u_queue_ok: "reach_u s \<Longrightarrow> queue_ok_u s"
proof (induction rule: reach_u.induct)
  case reach_u_init
  then show ?case by (simp add: queue_ok_u_def init_u_eq)
next
  case (reach_u_step s d s')
  then show ?case using queue_ok_u_grow_city [of s d] by auto
qed

lemma reach_u_total: "reach_u s \<Longrightarrow> \<exists>s'. grow_city_u s d = Inr s' \<and> reach_u s'"
  using queue_ok_u_grow_city [OF reach_u_queue_ok, of s d] reach_u_step by blast

lemma reach_u_run: "reach_u s \<Longrightarrow> \<exists>s'. run_u s ds = Inr s' \<and> reach_u s'"
proof (induction ds arbitrary: s)
  case Nil
  then show ?case by simp
next
  case (Cons d ds)
  from reach_u_total [OF Cons.prems, of d] obtain s1 where
    "grow_city_u s d = Inr s1" "reach_u s1" by blast
  then show ?case using Cons.IH [of s1] by simp
qed

text \<open>
  Claim C5. A call of \<open>grow_city\<close> that finds the queue empty leaves \<open>current_time\<close> as it
  is, and a call that dequeues a node adds exactly one; so over a sequence of calls the clock
  never decreases (and rises by at most the number of calls). From a reachable state every
  sequence of calls returns. (Shown for the three scripts.)
\<close>

theorem C5_clock:
  "(grow_city_e s d = Inr s' \<longrightarrow>
      current_time s' = current_time s + (if growth_queue s = [] then 0 else 1))
   \<and> (run_e s ds = Inr s'' \<longrightarrow>
      current_time s \<le> current_time s'' \<and> current_time s'' \<le> current_time s + length ds)
   \<and> (reach_e s \<longrightarrow> (\<exists>t. run_e s ds = Inr t))
   \<and> (grow_city_s s d = Inr s' \<longrightarrow>
      current_time s' = current_time s + (if growth_queue s = [] then 0 else 1))
   \<and> (run_s s ds = Inr s'' \<longrightarrow>
      current_time s \<le> current_time s'' \<and> current_time s'' \<le> current_time s + length ds)
   \<and> (reach_s s \<longrightarrow> (\<exists>t. run_s s ds = Inr t))
   \<and> (grow_city_u u d = Inr u' \<longrightarrow>
      current_time u' = current_time u + (if growth_queue u = [] then 0 else 1))
   \<and> (run_u u ds = Inr u'' \<longrightarrow>
      current_time u \<le> current_time u'' \<and> current_time u'' \<le> current_time u + length ds)
   \<and> (reach_u u \<longrightarrow> (\<exists>t. run_u u ds = Inr t))"
  using grow_city_e_time [of s d s'] run_e_time [of s ds s''] reach_e_run [of s ds]
    grow_city_s_time [of s d s'] run_s_time [of s ds s''] reach_s_run [of s ds]
    grow_city_u_time [of u d u'] run_u_time [of u ds u''] reach_u_run [of u ds]
  by blast

theorem C5_clock_witness:
  "grow_city_e init_e (fixed_draws 0 0 0) = Inr after_one_e
   \<and> growth_queue init_e \<noteq> [] \<and> current_time init_e = 0 \<and> current_time after_one_e = 1
   \<and> growth_queue (init_e\<lparr>growth_queue := []\<rparr>) = []
   \<and> (\<exists>t. grow_city_e (init_e\<lparr>growth_queue := []\<rparr>) (fixed_draws 0 0 0) = Inr t \<and> current_time t = 0)
   \<and> reach_e init_e
   \<and> (\<exists>t. run_e init_e [fixed_draws 0 0 0, fixed_draws 0 0 0] = Inr t)"
proof -
  let ?d = "fixed_draws 0 0 0"
  let ?s = "init_e\<lparr>growth_queue := []\<rparr>"
  have a: "current_time after_one_e = current_time init_e + (if growth_queue init_e = [] then 0 else 1)"
    using C5_clock [of init_e ?d after_one_e] grow_city_e_first by blast
  obtain t where t: "grow_city_e ?s ?d = Inr t"
    by (simp add: grow_city_e_empty)
  have b: "current_time t = current_time ?s + (if growth_queue ?s = [] then 0 else 1)"
    using C5_clock [of ?s ?d t] t by blast
  have c: "\<exists>t. run_e init_e [?d, ?d] = Inr t"
    using C5_clock [of init_e _ _ "[?d, ?d]"] reach_e_init by blast
  have q: "growth_queue init_e \<noteq> []" "current_time init_e = 0" "growth_queue ?s = []"
    "current_time ?s = 0"
    by (simp_all add: init_e_eq)
  have "current_time after_one_e = 1" using a q by simp
  moreover have "\<exists>t. grow_city_e ?s ?d = Inr t \<and> current_time t = 0"
    using t b q by simp
  ultimately show ?thesis
    using grow_city_e_first q c reach_e_init by simp
qed

subsection \<open>The periodically rebuilt index of the unplanned script\<close>

lemma euclid_polar: "euclid b (polar b a d) = \<bar>d\<bar>"
proof -
  have "(d * cos a)\<^sup>2 + (d * sin a)\<^sup>2 = d\<^sup>2 * ((cos a)\<^sup>2 + (sin a)\<^sup>2)"
    by (simp only: power_mult_distrib distrib_left)
  then have "(d * cos a)\<^sup>2 + (d * sin a)\<^sup>2 = d\<^sup>2" by simp
  then show ?thesis by (simp add: euclid_def polar_def)
qed

lemma euclid_polar': "euclid (polar b a d) b = \<bar>d\<bar>"
  using euclid_polar [of b a d] by (simp add: euclid_commute)

lemma find_valid_position_u_origin:
  assumes "kd_tree s = Some [(0, 0)]"
  shows "find_valid_position_u s (0, 0) a = Some (polar (0, 0) a min_distance)"
proof -
  have "is_valid_position_u s (polar (0, 0) a min_distance)"
    using assms min_distance_pos
    by (simp add: is_valid_position_u_def far_enough_def euclid_polar)
  then show ?thesis
    by (simp add: find_valid_position_u_def linspace5)
qed

lemma attempt_u_creates:
  assumes "kd_tree s = Some [(0, 0)]"
    and "position_to_node s (polar (0, 0) a min_distance) = None"
    and "length (node_positions_u s) mod 10 \<noteq> 0"
    and "map_of (road_ages s) (0, length (node_positions_u s)) = None"
  shows "attempt_u 0 (0, 0) a s =
     s\<lparr>node_positions_u :=
          dict_set (length (node_positions_u s)) (polar (0, 0) a min_distance) (node_positions_u s),
        position_to_node :=
          (position_to_node s)(polar (0, 0) a min_distance \<mapsto> length (node_positions_u s)),
        growth_queue := growth_queue s @ [length (node_positions_u s)],
        road_ages := road_ages s @ [((0, length (node_positions_u s)), current_time s)]\<rparr>"
proof -
  let ?p = "polar (0, 0) a min_distance"
  let ?n = "length (node_positions_u s)"
  have v: "is_valid_position_u s ?p"
    using assms(1) min_distance_pos
    by (simp add: is_valid_position_u_def far_enough_def euclid_polar)
  have n0: "?n \<noteq> 0" using assms(3) by auto
  have n: "add_node_u s ?p =
      (Some ?n, s\<lparr>node_positions_u := dict_set ?n ?p (node_positions_u s),
                   position_to_node := (position_to_node s)(?p \<mapsto> ?n),
                   growth_queue := growth_queue s @ [?n]\<rparr>)"
    using v assms(3) by (simp add: add_node_u_def Let_def)
  show ?thesis
    using assms(2,4) n0
    by (simp add: attempt_u_def find_valid_position_u_origin [OF assms(1)] n add_road_def)
qed

lemma polar_origin_0: "polar (0, 0) 0 min_distance = (3 / 100, 0)"
  by (simp add: polar_def min_distance_def)

lemma polar_origin_30: "polar (0, 0) (pi / 6) min_distance = (3 * sqrt 3 / 200, 3 / 200)"
  by (simp add: polar_def min_distance_def cos_30 sin_30)

lemma grow_city_u_crowded:
  "grow_city_u init_u (two_angle_draws 0 (pi / 6)) = Inr crowded_u"
proof -
  let ?s0 = "\<lparr>road_ages = [], growth_queue = [], current_time = Suc 0, kd_tree = Some [(0, 0)],
             node_positions_u = [(0, (0, 0))], position_to_node = [(0, 0) \<mapsto> 0]\<rparr>"
  let ?s1 = "\<lparr>road_ages = [((0, Suc 0), Suc 0)], growth_queue = [Suc 0], current_time = Suc 0,
             kd_tree = Some [(0, 0)],
             node_positions_u = [(0, (0, 0)), (Suc 0, (3 / 100, 0))],
             position_to_node = [(0, 0) \<mapsto> 0, (3 / 100, 0) \<mapsto> Suc 0]\<rparr>"
  have p: "popped init_u = ?s0"
    by (simp add: popped_def init_u_eq)
  have a1: "attempt_u 0 (0, 0) 0 ?s0 = ?s1"
    by (subst attempt_u_creates) (simp_all add: polar_origin_0)
  have a2: "attempt_u 0 (0, 0) (pi / 6) ?s1 = crowded_u"
    by (subst attempt_u_creates) (simp_all add: polar_origin_30 crowded_u_def numeral_2_eq_2)
  have as: "map (angles (two_angle_draws 0 (pi / 6))) [0..<randint 1 3 (count (two_angle_draws 0 (pi / 6)))]
      = [0, pi / 6]"
    by (simp add: two_angle_draws_def randint_def upt_rec)
  have "grow_city_u init_u (two_angle_draws 0 (pi / 6)) =
      Inr (fold (attempt_u 0 (0, 0)) [0, pi / 6] (popped init_u))"
    unfolding as [symmetric] by (simp add: grow_city_u_pop init_u_eq)
  then show ?thesis
    by (simp add: p a1 a2)
qed

lemma crowded_distance: "euclid (3 / 100, 0) (3 * sqrt 3 / 200, 3 / 200) < min_distance"
proof -
  let ?x = "sqrt 3"
  have x2: "?x * ?x = 3" by simp
  have x1: "1 < ?x" by simp
  have "(3 / 100 - 3 * ?x / 200)\<^sup>2 + (0 - 3 / 200)\<^sup>2 = (9 / 10000) * (2 - ?x)"
    using x2 by (simp add: power2_eq_square algebra_simps)
  also have "\<dots> < (3 / 100)\<^sup>2"
    using x1 by (simp add: power2_eq_square)
  finally have "sqrt ((3 / 100 - 3 * ?x / 200)\<^sup>2 + (0 - 3 / 200)\<^sup>2) < sqrt ((3 / 100)\<^sup>2)"
    by (simp only: real_sqrt_less_iff)
  then show ?thesis
    by (simp add: euclid_def min_distance_def)
qed

text \<open>
  Claim C1 fails for the unplanned script: after one call with two attempts, at the angles 0
  and \<open>\<pi>/6\<close>, the nodes 1 and 2 are closer to each other than \<open>min_distance\<close>. Both were
  checked against a tree that holds the origin only.
\<close>

theorem C1_unplanned_counterexample:
  "\<exists>s. reach_u s
      \<and> map_of (node_positions_u s) 1 = Some (3 / 100, 0)
      \<and> map_of (node_positions_u s) 2 = Some (3 * sqrt 3 / 200, 3 / 200)
      \<and> euclid (3 / 100, 0) (3 * sqrt 3 / 200, 3 / 200) < min_distance"
proof -
  have "reach_u crowded_u"
    using reach_u_step [OF reach_u_init grow_city_u_crowded] .
  then show ?thesis
    using crowded_distance by (intro exI [of _ crowded_u]) (simp add: crowded_u_def)
qed

subsection \<open>Queries never read a stale index (enhance script)\<close>

lemma lazy_ok_refresh: "lazy_ok s \<Longrightarrow> tree_current (refresh s) \<and> lazy_ok (refresh s)"
  by (auto simp: lazy_ok_def tree_current_def refresh_tree)

lemma lazy_ok_add_node: "lazy_ok s \<Longrightarrow> lazy_ok (snd (add_node_e s p))"
proof -
  assume l: "lazy_ok s"
  obtain r s' where a: "add_node_e s p = (r, s')" by (cases "add_node_e s p")
  show ?thesis
  proof (cases r)
    case None
    then show ?thesis using a add_node_e_None [of s p s'] lazy_ok_refresh [OF l] by simp
  next
    case (Some i)
    then show ?thesis using a add_node_e_Some [of s p i s'] by (simp add: lazy_ok_def)
  qed
qed

lemma lazy_ok_queries: "lazy_ok s \<Longrightarrow> queries_current_e s ops"
proof (induction ops arbitrary: s)
  case Nil
  then show ?case by simp
next
  case (Cons x ops)
  show ?case
  proof (cases x)
    case (Insert p)
    then show ?thesis
      using lazy_ok_refresh [OF Cons.prems] Cons.IH [OF lazy_ok_add_node [OF Cons.prems]] by simp
  next
    case (Query p)
    then show ?thesis
      using lazy_ok_refresh [OF Cons.prems] Cons.IH [of "refresh s"] by simp
  qed
qed

lemma lazy_ok_empty: "lazy_ok empty_e"
  by (simp add: lazy_ok_def empty_e_def tree_current_def)

lemma lazy_ok_answer:
  assumes "lazy_ok s"
  shows "fst (is_valid_position_e s p) = (\<forall>q \<in> set (node_positions s). min_distance \<le> euclid q p)"
proof (cases "node_positions s = []")
  case True
  then have "kd_tree (refresh s) = None"
    using assms by (simp add: lazy_ok_def refresh_tree)
  then show ?thesis using True by (simp add: is_valid_position_e_fst)
next
  case False
  then have "kd_tree (refresh s) = Some (node_positions s)"
    using lazy_ok_refresh [OF assms] by (simp add: tree_current_def)
  then show ?thesis by (simp add: is_valid_position_e_fst far_enough_iff)
qed

lemma wf_e_lazy_ok: "wf_e s \<Longrightarrow> lazy_ok s"
  by (auto simp: wf_e_def index_ok_def lazy_ok_def tree_current_def)

text \<open>
  Claim C3, for the enhance script. From the state \<open>__init__\<close> starts with, and from every
  state in which the tree is stale-marked or current, every sequence of insertions and queries
  has all its queries answered from a current tree; the answer of \<open>_is_valid_position\<close> is the
  comparison against all stored nodes; and the query \<open>grow_city\<close> makes after a successful
  search also reads a current tree. Every reachable state is such a state.
\<close>

theorem C3_lazy_rebuild:
  "queries_current_e empty_e ops
   \<and> (lazy_ok s \<longrightarrow>
        queries_current_e s ops
        \<and> fst (is_valid_position_e s p)
            = (\<forall>q \<in> set (node_positions s). min_distance \<le> euclid q p)
        \<and> tree_current (refresh (snd (find_valid_position_e s pos angle)))
        \<and> node_positions (refresh (snd (find_valid_position_e s pos angle))) = node_positions s)
   \<and> (reach_e s \<longrightarrow> lazy_ok s)"
proof (intro conjI impI)
  show "queries_current_e empty_e ops"
    using lazy_ok_queries [OF lazy_ok_empty] .
next
  assume l: "lazy_ok s"
  show "queries_current_e s ops" using lazy_ok_queries [OF l] .
  show "fst (is_valid_position_e s p)
            = (\<forall>q \<in> set (node_positions s). min_distance \<le> euclid q p)"
    using lazy_ok_answer [OF l] .
  show "tree_current (refresh (snd (find_valid_position_e s pos angle)))"
    using lazy_ok_refresh [OF l] by (simp add: find_valid_position_e_eq)
  show "node_positions (refresh (snd (find_valid_position_e s pos angle))) = node_positions s"
    by (simp add: find_valid_position_e_eq)
next
  assume "reach_e s"
  then show "lazy_ok s" using wf_e_lazy_ok [OF reach_e_wf] by simp
qed

lemma far_enough_two:
  "\<not> (\<forall>q \<in> set [(0, 0), (3 / 100, 0)]. min_distance \<le> euclid q (3 / 100, 0))"
  by (simp add: min_distance_def)

theorem C3_lazy_rebuild_witness:
  "queries_current_e empty_e [Insert (0, 0), Insert (3 / 100, 0), Query (3 / 100, 0)]
   \<and> reach_e after_one_e \<and> kd_tree_dirty after_one_e
   \<and> node_positions after_one_e = [(0, 0), (3 / 100, 0)]
   \<and> \<not> fst (is_valid_position_e after_one_e (3 / 100, 0))
   \<and> kd_tree (snd (is_valid_position_e after_one_e (3 / 100, 0))) = Some [(0, 0), (3 / 100, 0)]"
proof -
  note w = C3_lazy_rebuild [of "[Insert (0, 0), Insert (3 / 100, 0), Query (3 / 100, 0)]"
      after_one_e "(3 / 100, 0)" "(0, 0)" 0]
  have l: "lazy_ok after_one_e" using w reach_e_after_one by blast
  have n: "node_positions after_one_e = [(0, 0), (3 / 100, 0)]" "kd_tree_dirty after_one_e"
    by (simp_all add: after_one_e_def)
  have "fst (is_valid_position_e after_one_e (3 / 100, 0))
      = (\<forall>q \<in> set (node_positions after_one_e). min_distance \<le> euclid q (3 / 100, 0))"
    using w l by blast
  then have a: "\<not> fst (is_valid_position_e after_one_e (3 / 100, 0))"
    unfolding n using far_enough_two by blast
  have t: "kd_tree (snd (is_valid_position_e after_one_e (3 / 100, 0))) = Some [(0, 0), (3 / 100, 0)]"
    by (simp add: refresh_tree n)
  show ?thesis
    using w a t n reach_e_after_one by blast
qed

subsection \<open>Queries of the unplanned script can read a stale index\<close>

text \<open>
  Claim C3 fails for the unplanned script: after the origin (id 0, which triggers a rebuild)
  a second node is inserted at \<open>(1, 0)\<close> without a rebuild, and a query for that very position
  is then answered from a tree that holds the origin only, and answers that the position is
  free.
\<close>

theorem C3_unplanned_counterexample:
  "fst (add_node_u init_u (1, 0)) = Some 1
   \<and> map snd (node_positions_u (snd (add_node_u init_u (1, 0)))) = [(0, 0), (1, 0)]
   \<and> kd_tree (snd (add_node_u init_u (1, 0))) = Some [(0, 0)]
   \<and> is_valid_position_u (snd (add_node_u init_u (1, 0))) (1, 0)"
proof -
  have v: "is_valid_position_u init_u (1, 0)"
    by (simp add: is_valid_position_u_def init_u_eq far_enough_def euclid_same_y min_distance_def)
  have a: "add_node_u init_u (1, 0) =
      (Some (Suc 0), init_u\<lparr>node_positions_u := [(0, (0, 0)), (Suc 0, (1, 0))],
          position_to_node := [(0, 0) \<mapsto> 0, (1, 0) \<mapsto> Suc 0], growth_queue := [0, Suc 0]\<rparr>)"
    using v by (simp add: add_node_u_def Let_def) (simp add: init_u_eq)
  show ?thesis
    unfolding a
    by (simp add: is_valid_position_u_def init_u_eq far_enough_def euclid_same_y min_distance_def)
qed

subsection \<open>The merge branch is never taken (enhance script)\<close>

lemma roads_to_new_refresh: "roads_to_new s (refresh s) node_id"
  by (simp add: roads_to_new_def)

lemma roads_to_new_created: "roads_to_new s (created s node_id p) node_id"
  unfolding roads_to_new_def by (intro exI [of _ "[p]"]) (simp add: created_def)

lemma roads_to_new_trans:
  assumes "roads_to_new s s1 node_id" "roads_to_new s1 s2 node_id"
  shows "roads_to_new s s2 node_id"
proof -
  let ?n = "length (node_positions s)"
  let ?t = "current_time s"
  from assms(1) obtain n1 where 1: "node_positions s1 = node_positions s @ n1"
    "road_ages s1 = road_ages s @ map (\<lambda>j. ((node_id, ?n + j), ?t)) [0..<length n1]"
    "current_time s1 = ?t"
    unfolding roads_to_new_def by blast
  from assms(2) obtain n2 where 2: "node_positions s2 = node_positions s1 @ n2"
    "road_ages s2 = road_ages s1
       @ map (\<lambda>j. ((node_id, length (node_positions s1) + j), current_time s1)) [0..<length n2]"
    "current_time s2 = current_time s1"
    unfolding roads_to_new_def by blast
  have "map (\<lambda>j. ((node_id, ?n + length n1 + j), ?t)) [0..<length n2]
      = map (\<lambda>j. ((node_id, ?n + j), ?t)) (map (\<lambda>j. j + length n1) [0..<length n2])"
    by (simp add: add.commute add.left_commute)
  also have "\<dots> = map (\<lambda>j. ((node_id, ?n + j), ?t)) [length n1..<length n2 + length n1]"
    by (simp only: map_add_upt)
  finally have m: "map (\<lambda>j. ((node_id, ?n + length n1 + j), ?t)) [0..<length n2]
      = map (\<lambda>j. ((node_id, ?n + j), ?t)) [length n1..<length n1 + length n2]"
    by (simp add: add.commute)
  have u: "[0..<length (n1 @ n2)] = [0..<length n1] @ [length n1..<length n1 + length n2]"
    using upt_add_eq_append [of 0 "length n1" "length n2"] by simp
  have "road_ages s2 = road_ages s @ map (\<lambda>j. ((node_id, ?n + j), ?t)) [0..<length (n1 @ n2)]"
    unfolding u using 1 2 m by simp
  then show ?thesis
    unfolding roads_to_new_def using 1 2 by (intro exI [of _ "n1 @ n2"]) simp
qed

lemma roads_to_new_attempt_e:
  assumes "wf_e s" "node_id < length (node_positions s)" "attempt_e node_id pos angle s = Inr s'"
  shows "roads_to_new s s' node_id"
proof -
  from assms(1) have io: "index_ok s" and r: "roads_ok s" by (simp_all add: wf_e_def)
  show ?thesis
    using attempt_e_eq [OF io r assms(2), of pos angle] assms(3)
      roads_to_new_refresh [of s node_id] roads_to_new_created [of s node_id]
    by (auto split: option.splits)
qed

lemma roads_to_new_attempts_e:
  assumes "wf_e s" "node_id < length (node_positions s)" "attempts_e node_id pos as s = Inr s'"
  shows "roads_to_new s s' node_id"
  using assms
proof (induction as arbitrary: s)
  case Nil
  then show ?case using roads_to_new_refresh [of s node_id] by (simp add: roads_to_new_def)
next
  case (Cons a as)
  from wf_e_attempt [OF Cons.prems(1,2), of pos a] obtain s1 where
    1: "attempt_e node_id pos a s = Inr s1" "wf_e s1"
      "length (node_positions s) \<le> length (node_positions s1)"
    by blast
  then have n: "node_id < length (node_positions s1)" using Cons.prems(2) by simp
  have 2: "attempts_e node_id pos as s1 = Inr s'" using Cons.prems(3) 1(1) by simp
  show ?case
    using roads_to_new_trans [OF roads_to_new_attempt_e [OF Cons.prems(1,2) 1(1)]
        Cons.IH [OF 1(2) n 2]] .
qed

lemma roads_to_new_grow_city_e:
  assumes "reach_e s" "growth_queue s \<noteq> []" "grow_city_e s d = Inr s'"
  shows "roads_to_new (popped s) s' (hd (growth_queue s))"
proof -
  have w: "wf_e s" using reach_e_wf [OF assms(1)] .
  then have h: "hd (growth_queue s) < length (node_positions s)"
    using assms(2) by (simp add: wf_e_def queue_ok_def)
  then have h': "hd (growth_queue s) < length (node_positions (popped s))"
    by (simp add: popped_def)
  have "attempts_e (hd (growth_queue s)) (node_positions s ! hd (growth_queue s))
      (map (angles d) [0..<rng_integers 1 4 (count d)]) (popped s) = Inr s'"
    using assms(2,3) h by (simp add: grow_city_e_pop)
  from roads_to_new_attempts_e [OF wf_e_popped [OF w] h' this] show ?thesis .
qed

lemma attempt_e_no_merge:
  assumes "wf_e s" "node_id < length (node_positions s)"
    "find_valid_position_e s pos angle = (Some p, s1)"
  shows "(\<exists>d i. nearest (node_positions s) p = Some (d, i) \<and> reject_e \<le> d
            \<and> \<not> d < min_distance * (1 / 2))
         \<and> kd_tree (refresh s1) = Some (node_positions s)
         \<and> attempt_e node_id pos angle s = Inr (created s node_id p)"
proof -
  from assms(1) have io: "index_ok s" and r: "roads_ok s" by (simp_all add: wf_e_def)
  from assms(3) have f: "find (\<lambda>p. fst (is_valid_position_e s p)) (candidates_e pos angle) = Some p"
    and s1: "s1 = refresh s"
    by (simp_all add: find_valid_position_e_eq)
  from f have v: "fst (is_valid_position_e s p)" by (auto simp: find_Some_iff)
  then have far: "\<forall>q \<in> set (node_positions s). reject_e \<le> euclid q p"
    using io by (simp add: valid_e_iff)
  from io have ne: "node_positions s \<noteq> []" by (simp add: index_ok_def)
  from nearest_far [OF far ne] obtain d i where
    n: "nearest (node_positions s) p = Some (d, i)" and d: "reject_e \<le> d"
    by blast
  have nm: "\<not> d < min_distance * (1 / 2)" using d reject_e_merge by linarith
  show ?thesis
    using n d nm s1 index_ok_refresh [OF io] attempt_e_eq [OF io r assms(2), of pos angle] f
    by simp
qed

subsection \<open>The merge branch is never taken (Simcity script)\<close>

lemma roads_to_new_attempt_s:
  assumes "wf_s s" "node_id < length (node_positions s)" "attempt_s node_id pos angle s = Inr s'"
  shows "roads_to_new s s' node_id"
proof -
  from assms(1) have io: "index_ok s" and r: "roads_ok s" by (simp_all add: wf_s_def)
  show ?thesis
    using attempt_s_eq [OF io r assms(2), of pos angle] assms(3)
      roads_to_new_refresh [of s node_id] roads_to_new_created [of s node_id]
    by (auto split: option.splits)
qed

lemma roads_to_new_attempts_s:
  assumes "wf_s s" "node_id < length (node_positions s)" "attempts_s node_id pos as s = Inr s'"
  shows "roads_to_new s s' node_id"
  using assms
proof (induction as arbitrary: s)
  case Nil
  then show ?case using roads_to_new_refresh [of s node_id] by (simp add: roads_to_new_def)
next
  case (Cons a as)
  from wf_s_attempt [OF Cons.prems(1,2), of pos a] obtain s1 where
    1: "attempt_s node_id pos a s = Inr s1" "wf_s s1"
      "length (node_positions s) \<le> length (node_positions s1)"
    by blast
  then have n: "node_id < length (node_positions s1)" using Cons.prems(2) by simp
  have 2: "attempts_s node_id pos as s1 = Inr s'" using Cons.prems(3) 1(1) by simp
  show ?case
    using roads_to_new_trans [OF roads_to_new_attempt_s [OF Cons.prems(1,2) 1(1)]
        Cons.IH [OF 1(2) n 2]] .
qed

lemma roads_to_new_grow_city_s:
  assumes "reach_s s" "growth_queue s \<noteq> []" "grow_city_s s d = Inr s'"
  shows "roads_to_new (popped s) s' (hd (growth_queue s))"
proof -
  have w: "wf_s s" using reach_s_wf [OF assms(1)] .
  then have h: "hd (growth_queue s) < length (node_positions s)"
    using assms(2) by (simp add: wf_s_def queue_ok_def)
  then have h': "hd (growth_queue s) < length (node_positions (popped s))"
    by (simp add: popped_def)
  have "attempts_s (hd (growth_queue s)) (node_positions s ! hd (growth_queue s))
      (map (angle_s d) [0..<rng_integers 1 4 (count d)]) (popped s) = Inr s'"
    using assms(2,3) h by (simp add: grow_city_s_pop)
  from roads_to_new_attempts_s [OF wf_s_popped [OF w] h' this] show ?thesis .
qed

lemma attempt_s_no_merge:
  assumes "wf_s s" "node_id < length (node_positions s)"
    "find_valid_position_s s pos angle = (Some p, s1)"
  shows "(\<exists>d i. nearest (node_positions s) p = Some (d, i) \<and> reject_s \<le> d
            \<and> \<not> d < min_distance * (1 / 2))
         \<and> kd_tree (refresh s1) = Some (node_positions s)
         \<and> attempt_s node_id pos angle s = Inr (created s node_id p)"
proof -
  from assms(1) have io: "index_ok s" and r: "roads_ok s" by (simp_all add: wf_s_def)
  from assms(3) have f: "find (\<lambda>p. fst (is_valid_position_s s p)) (candidates_s pos angle) = Some p"
    and s1: "s1 = refresh s"
    by (simp_all add: find_valid_position_s_eq)
  from f have v: "fst (is_valid_position_s s p)" by (auto simp: find_Some_iff)
  then have far: "\<forall>q \<in> set (node_positions s). reject_s \<le> euclid q p"
    using io by (simp add: valid_s_iff)
  from io have ne: "node_positions s \<noteq> []" by (simp add: index_ok_def)
  from nearest_far [OF far ne] obtain d i where
    n: "nearest (node_positions s) p = Some (d, i)" and d: "reject_s \<le> d"
    by blast
  have nm: "\<not> d < min_distance * (1 / 2)" using d reject_s_merge by linarith
  show ?thesis
    using n d nm s1 index_ok_refresh [OF io] attempt_s_eq [OF io r assms(2), of pos angle] f
    by simp
qed

subsection \<open>Claim C10\<close>

lemma find_valid_position_e_first:
  "find_valid_position_e (popped init_e) (0, 0) 0 = (Some (3 / 100, 0), refresh (popped init_e))"
proof -
  have io: "index_ok (popped init_e)"
    using wf_e_popped [OF wf_e_init] by (simp add: wf_e_def)
  have n: "node_positions (popped init_e) = [(0, 0)]"
    by (simp add: popped_def init_e_eq)
  have "fst (is_valid_position_e (popped init_e) (3 / 100, 0))"
    by (simp add: valid_e_iff [OF io] n reject_e_def min_distance_def euclid_same_y)
  then show ?thesis
    by (simp add: find_valid_position_e_eq candidates_e_angle0)
qed

text \<open>
  Claim C10. In the enhance and Simcity scripts, in every state in which an attempt of
  \<open>grow_city\<close> can start (the invariant \<open>wf_e\<close>, \<open>wf_s\<close> holds after the dequeue in a reachable
  state and after every attempt): when \<open>_find_valid_position\<close> returns a position, the next
  query reads a tree built from all nodes and returns a distance of at least the validity
  threshold, which is not below \<open>0.5 * min_distance\<close>; the attempt then creates the node and
  the road to it. So what a call adds to the roads is exactly one road per new node, from the
  dequeued node to the new one.
\<close>

theorem C10_merge_unreachable:
  "(wf_e s \<and> node_id < length (node_positions s)
      \<and> find_valid_position_e s pos angle = (Some p, s1) \<longrightarrow>
        (\<exists>d i. nearest (node_positions s) p = Some (d, i) \<and> min_distance \<le> d
            \<and> \<not> d < min_distance * (1 / 2))
        \<and> kd_tree (refresh s1) = Some (node_positions s)
        \<and> attempt_e node_id pos angle s = Inr (created s node_id p))
   \<and> (wf_s s \<and> node_id < length (node_positions s)
      \<and> find_valid_position_s s pos angle = (Some p, s1) \<longrightarrow>
        (\<exists>d i. nearest (node_positions s) p = Some (d, i) \<and> min_distance * (9 / 10) \<le> d
            \<and> \<not> d < min_distance * (1 / 2))
        \<and> kd_tree (refresh s1) = Some (node_positions s)
        \<and> attempt_s node_id pos angle s = Inr (created s node_id p))
   \<and> (reach_e s \<and> growth_queue s \<noteq> [] \<longrightarrow>
        wf_e (popped s) \<and> hd (growth_queue s) < length (node_positions (popped s)))
   \<and> (reach_s s \<and> growth_queue s \<noteq> [] \<longrightarrow>
        wf_s (popped s) \<and> hd (growth_queue s) < length (node_positions (popped s)))
   \<and> (wf_e s \<and> node_id < length (node_positions s) \<longrightarrow>
        (\<exists>s'. attempt_e node_id pos angle s = Inr s' \<and> wf_e s'
            \<and> node_id < length (node_positions s')))
   \<and> (wf_s s \<and> node_id < length (node_positions s) \<longrightarrow>
        (\<exists>s'. attempt_s node_id pos angle s = Inr s' \<and> wf_s s'
            \<and> node_id < length (node_positions s')))
   \<and> (reach_e s \<and> growth_queue s \<noteq> [] \<and> grow_city_e s d = Inr t \<longrightarrow>
        roads_to_new (popped s) t (hd (growth_queue s)))
   \<and> (reach_s s \<and> growth_queue s \<noteq> [] \<and> grow_city_s s d = Inr t \<longrightarrow>
        roads_to_new (popped s) t (hd (growth_queue s)))"
proof (intro conjI impI)
  assume a: "wf_e s \<and> node_id < length (node_positions s)
      \<and> find_valid_position_e s pos angle = (Some p, s1)"
  then have a1: "wf_e s" and a2: "node_id < length (node_positions s)"
    and a3: "find_valid_position_e s pos angle = (Some p, s1)" by simp_all
  from attempt_e_no_merge [OF a1 a2 a3]
  show "\<exists>d i. nearest (node_positions s) p = Some (d, i) \<and> min_distance \<le> d
            \<and> \<not> d < min_distance * (1 / 2)"
    "kd_tree (refresh s1) = Some (node_positions s)"
    "attempt_e node_id pos angle s = Inr (created s node_id p)"
    by (simp_all add: reject_e_def)
next
  assume a: "wf_s s \<and> node_id < length (node_positions s)
      \<and> find_valid_position_s s pos angle = (Some p, s1)"
  then have a1: "wf_s s" and a2: "node_id < length (node_positions s)"
    and a3: "find_valid_position_s s pos angle = (Some p, s1)" by simp_all
  from attempt_s_no_merge [OF a1 a2 a3]
  show "\<exists>d i. nearest (node_positions s) p = Some (d, i) \<and> min_distance * (9 / 10) \<le> d
            \<and> \<not> d < min_distance * (1 / 2)"
    "kd_tree (refresh s1) = Some (node_positions s)"
    "attempt_s node_id pos angle s = Inr (created s node_id p)"
    by (simp_all add: reject_s_def)
next
  assume a: "reach_e s \<and> growth_queue s \<noteq> []"
  then have w: "wf_e s" using reach_e_wf by blast
  show "wf_e (popped s)" using wf_e_popped [OF w] .
  show "hd (growth_queue s) < length (node_positions (popped s))"
    using w a by (simp add: wf_e_def queue_ok_def popped_def)
next
  assume a: "reach_s s \<and> growth_queue s \<noteq> []"
  then have w: "wf_s s" using reach_s_wf by blast
  show "wf_s (popped s)" using wf_s_popped [OF w] .
  show "hd (growth_queue s) < length (node_positions (popped s))"
    using w a by (simp add: wf_s_def queue_ok_def popped_def)
next
  assume a: "wf_e s \<and> node_id < length (node_positions s)"
  then show "\<exists>s'. attempt_e node_id pos angle s = Inr s' \<and> wf_e s'
            \<and> node_id < length (node_positions s')"
    using wf_e_attempt [of s node_id pos angle] by force
next
  assume a: "wf_s s \<and> node_id < length (node_positions s)"
  then show "\<exists>s'. attempt_s node_id pos angle s = Inr s' \<and> wf_s s'
            \<and> node_id < length (node_positions s')"
    using wf_s_attempt [of s node_id pos angle] by force
next
  assume "reach_e s \<and> growth_queue s \<noteq> [] \<and> grow_city_e s d = Inr t"
  then show "roads_to_new (popped s) t (hd (growth_queue s))"
    using roads_to_new_grow_city_e by blast
next
  assume "reach_s s \<and> growth_queue s \<noteq> [] \<and> grow_city_s s d = Inr t"
  then show "roads_to_new (popped s) t (hd (growth_queue s))"
    using roads_to_new_grow_city_s by blast
qed

theorem C10_merge_unreachable_witness:
  "wf_e (popped init_e) \<and> (0::nat) < length (node_positions (popped init_e))
   \<and> find_valid_position_e (popped init_e) (0, 0) 0 = (Some (3 / 100, 0), refresh (popped init_e))
   \<and> nearest [(0, 0)] (3 / 100, 0) = Some (3 / 100, 0)
   \<and> attempt_e 0 (0, 0) 0 (popped init_e) = Inr (created (popped init_e) 0 (3 / 100, 0))
   \<and> created (popped init_e) 0 (3 / 100, 0) = after_one_e
   \<and> road_ages after_one_e = [((0, 1), 1)]"
proof -
  have w: "wf_e (popped init_e)" using wf_e_popped [OF wf_e_init] .
  have n: "(0::nat) < length (node_positions (popped init_e))"
    by (simp add: popped_def init_e_eq)
  note c = C10_merge_unreachable [of "popped init_e" 0 "(0, 0)" 0 "(3 / 100, 0)"
      "refresh (popped init_e)"]
  have a: "attempt_e 0 (0, 0) 0 (popped init_e) = Inr (created (popped init_e) 0 (3 / 100, 0))"
    using c w n find_valid_position_e_first by blast
  have e: "created (popped init_e) 0 (3 / 100, 0) = after_one_e"
    by (simp add: created_def popped_def init_e_eq after_one_e_def refresh_def
        update_spatial_index_def)
  have q: "nearest [(0, 0)] (3 / 100, 0) = Some (3 / 100, 0)"
    by (simp add: euclid_same_y)
  show ?thesis
    using w n find_valid_position_e_first a e q by (simp add: after_one_e_def)
qed

subsection \<open>The candidate search\<close>

lemma radii5: "linspace min_distance (2 * min_distance) 5 = [3 / 100, 3 / 80, 9 / 200, 21 / 400, 3 / 50]"
  by (simp add: linspace5 min_distance_def)

lemma radii3: "linspace min_distance (2 * min_distance) 3 = [3 / 100, 9 / 200, 3 / 50]"
  by (simp add: linspace3 min_distance_def)

lemma length_candidates_e: "length (candidates_e pos angle) = 5"
  by (simp add: candidates_e_def linspace_def)

lemma length_candidates_s: "length (candidates_s pos angle) = 3"
  by (simp add: candidates_s_def linspace_def)

lemma find_first:
  "find P xs = Some x \<Longrightarrow> \<exists>i < length xs. x = xs ! i \<and> P x \<and> (\<forall>j < i. \<not> P (xs ! j))"
  by (auto simp: find_Some_iff)

lemma find_valid_position_u_eq:
  "find_valid_position_u s base_pos angle =
     find (is_valid_position_u s)
       (map (polar base_pos angle) (linspace min_distance (2 * min_distance) 5))"
  by (simp add: find_valid_position_u_def)

lemma attempt_e_none:
  "fst (find_valid_position_e s pos angle) = None \<Longrightarrow> attempt_e node_id pos angle s = Inr (refresh s)"
  by (cases "find_valid_position_e s pos angle") (simp add: attempt_e_def find_valid_position_e_eq)

lemma attempt_s_none:
  "fst (find_valid_position_s s pos angle) = None \<Longrightarrow> attempt_s node_id pos angle s = Inr (refresh s)"
  by (cases "find_valid_position_s s pos angle") (simp add: attempt_s_def find_valid_position_s_eq)

lemma attempt_u_none:
  "find_valid_position_u s pos angle = None \<Longrightarrow> attempt_u node_id pos angle s = s"
  by (simp add: attempt_u_def)

text \<open>
  Claim C7, as the scripts have it. The radii are the 5 (enhance, unplanned) or 3 (Simcity)
  evenly spaced values from \<open>min_distance\<close> to \<open>2 * min_distance\<close>, in increasing order. The
  enhance and unplanned scripts test the points at these radii along the angle, in that order,
  and return the first that passes the validity check. The Simcity script snaps each such point
  to the grid first, and tests and returns the snapped point. When no candidate passes, the
  attempt returns without an error and leaves nodes, roads, queue and clock as they were.
\<close>

theorem C7_candidate_search:
  "linspace min_distance (2 * min_distance) 5 = [3 / 100, 3 / 80, 9 / 200, 21 / 400, 3 / 50]
   \<and> linspace min_distance (2 * min_distance) 3 = [3 / 100, 9 / 200, 3 / 50]
   \<and> candidates_e pos angle = map (polar pos angle) (linspace min_distance (2 * min_distance) 5)
   \<and> candidates_s pos angle
       = map (\<lambda>d. snap_to_grid (polar pos angle d)) (linspace min_distance (2 * min_distance) 3)
   \<and> find_valid_position_e s pos angle
       = (find (\<lambda>p. fst (is_valid_position_e s p)) (candidates_e pos angle), refresh s)
   \<and> find_valid_position_s s pos angle
       = (find (\<lambda>p. fst (is_valid_position_s s p)) (candidates_s pos angle), refresh s)
   \<and> find_valid_position_u u pos angle = find (is_valid_position_u u) (candidates_e pos angle)
   \<and> (fst (find_valid_position_e s pos angle) = Some p \<longrightarrow>
        (\<exists>i < 5. p = candidates_e pos angle ! i \<and> fst (is_valid_position_e s p)
           \<and> (\<forall>j < i. \<not> fst (is_valid_position_e s (candidates_e pos angle ! j)))))
   \<and> (fst (find_valid_position_s s pos angle) = Some p \<longrightarrow>
        (\<exists>i < 3. p = candidates_s pos angle ! i \<and> fst (is_valid_position_s s p)
           \<and> (\<forall>j < i. \<not> fst (is_valid_position_s s (candidates_s pos angle ! j)))))
   \<and> (find_valid_position_u u pos angle = Some p \<longrightarrow>
        (\<exists>i < 5. p = candidates_e pos angle ! i \<and> is_valid_position_u u p
           \<and> (\<forall>j < i. \<not> is_valid_position_u u (candidates_e pos angle ! j))))
   \<and> (fst (find_valid_position_e s pos angle) = None \<longrightarrow>
        attempt_e node_id pos angle s = Inr (refresh s)
        \<and> node_positions (refresh s) = node_positions s \<and> road_ages (refresh s) = road_ages s
        \<and> growth_queue (refresh s) = growth_queue s \<and> current_time (refresh s) = current_time s)
   \<and> (fst (find_valid_position_s s pos angle) = None \<longrightarrow>
        attempt_s node_id pos angle s = Inr (refresh s)
        \<and> node_positions (refresh s) = node_positions s \<and> road_ages (refresh s) = road_ages s
        \<and> growth_queue (refresh s) = growth_queue s \<and> current_time (refresh s) = current_time s)
   \<and> (find_valid_position_u u pos angle = None \<longrightarrow> attempt_u node_id pos angle u = u)"
proof (intro conjI impI)
  show "linspace min_distance (2 * min_distance) 5 = [3 / 100, 3 / 80, 9 / 200, 21 / 400, 3 / 50]"
    by (rule radii5)
  show "linspace min_distance (2 * min_distance) 3 = [3 / 100, 9 / 200, 3 / 50]"
    by (rule radii3)
  show "candidates_e pos angle = map (polar pos angle) (linspace min_distance (2 * min_distance) 5)"
    by (rule candidates_e_def)
  show "candidates_s pos angle
       = map (\<lambda>d. snap_to_grid (polar pos angle d)) (linspace min_distance (2 * min_distance) 3)"
    by (rule candidates_s_def)
  show "find_valid_position_e s pos angle
       = (find (\<lambda>p. fst (is_valid_position_e s p)) (candidates_e pos angle), refresh s)"
    by (rule find_valid_position_e_eq)
  show "find_valid_position_s s pos angle
       = (find (\<lambda>p. fst (is_valid_position_s s p)) (candidates_s pos angle), refresh s)"
    by (rule find_valid_position_s_eq)
  show "find_valid_position_u u pos angle = find (is_valid_position_u u) (candidates_e pos angle)"
    by (simp add: find_valid_position_u_def candidates_e_def)
next
  assume "fst (find_valid_position_e s pos angle) = Some p"
  then have "find (\<lambda>p. fst (is_valid_position_e s p)) (candidates_e pos angle) = Some p"
    by (simp add: find_valid_position_e_eq)
  from find_first [OF this]
  show "\<exists>i < 5. p = candidates_e pos angle ! i \<and> fst (is_valid_position_e s p)
           \<and> (\<forall>j < i. \<not> fst (is_valid_position_e s (candidates_e pos angle ! j)))"
    by (simp only: length_candidates_e)
next
  assume "fst (find_valid_position_s s pos angle) = Some p"
  then have "find (\<lambda>p. fst (is_valid_position_s s p)) (candidates_s pos angle) = Some p"
    by (simp add: find_valid_position_s_eq)
  from find_first [OF this]
  show "\<exists>i < 3. p = candidates_s pos angle ! i \<and> fst (is_valid_position_s s p)
           \<and> (\<forall>j < i. \<not> fst (is_valid_position_s s (candidates_s pos angle ! j)))"
    by (simp only: length_candidates_s)
next
  assume "find_valid_position_u u pos angle = Some p"
  then have "find (is_valid_position_u u) (candidates_e pos angle) = Some p"
    by (simp add: find_valid_position_u_def candidates_e_def)
  from find_first [OF this]
  show "\<exists>i < 5. p = candidates_e pos angle ! i \<and> is_valid_position_u u p
           \<and> (\<forall>j < i. \<not> is_valid_position_u u (candidates_e pos angle ! j))"
    by (simp only: length_candidates_e)
next
  assume "fst (find_valid_position_e s pos angle) = None"
  then show "attempt_e node_id pos angle s = Inr (refresh s)" by (rule attempt_e_none)
next
  assume "fst (find_valid_position_s s pos angle) = None"
  then show "attempt_s node_id pos angle s = Inr (refresh s)" by (rule attempt_s_none)
next
  assume "find_valid_position_u u pos angle = None"
  then show "attempt_u node_id pos angle u = u" by (rule attempt_u_none)
qed simp_all

lemma blocked_e_lazy_ok: "lazy_ok blocked_e"
  by (simp add: lazy_ok_def blocked_e_def empty_e_def)

lemma blocked_e_search: "fst (find_valid_position_e blocked_e (0, 0) 0) = None"
proof -
  have n: "node_positions blocked_e = [(9 / 200, 0)]"
    by (simp add: blocked_e_def empty_e_def)
  have "\<not> fst (is_valid_position_e blocked_e p)" if "p \<in> set (candidates_e (0, 0) 0)" for p
    using that
    by (auto simp: lazy_ok_answer [OF blocked_e_lazy_ok] n candidates_e_angle0 euclid_same_y
        min_distance_def)
  then show ?thesis
    by (simp add: find_valid_position_e_eq find_None_iff)
qed

theorem C7_candidate_search_witness:
  "fst (find_valid_position_e (popped init_e) (0, 0) 0) = Some (3 / 100, 0)
   \<and> candidates_e (0, 0) 0 = [(3 / 100, 0), (3 / 80, 0), (9 / 200, 0), (21 / 400, 0), (3 / 50, 0)]
   \<and> fst (is_valid_position_e (popped init_e) (3 / 100, 0))
   \<and> fst (find_valid_position_e blocked_e (0, 0) 0) = None
   \<and> attempt_e 0 (0, 0) 0 blocked_e = Inr (refresh blocked_e)
   \<and> node_positions (refresh blocked_e) = [(9 / 200, 0)]
   \<and> road_ages (refresh blocked_e) = []"
proof -
  note c1 = C7_candidate_search [of "(0, 0)" 0 "popped init_e" init_u "(3 / 100, 0)" 0]
  note c2 = C7_candidate_search [of "(0, 0)" 0 blocked_e init_u "(3 / 100, 0)" 0]
  have f: "fst (find_valid_position_e (popped init_e) (0, 0) 0) = Some (3 / 100, 0)"
    by (simp add: find_valid_position_e_first)
  have v: "fst (is_valid_position_e (popped init_e) (3 / 100, 0))"
    using c1 f by blast
  have a: "attempt_e 0 (0, 0) 0 blocked_e = Inr (refresh blocked_e)"
    using c2 blocked_e_search by blast
  have n: "node_positions (refresh blocked_e) = [(9 / 200, 0)]" "road_ages (refresh blocked_e) = []"
    by (simp_all add: blocked_e_def empty_e_def)
  show ?thesis
    using f v a n blocked_e_search candidates_e_angle0 by simp
qed

subsection \<open>The Simcity search returns the snapped point\<close>

lemma sqrt2_bounds: "1 < sqrt 2" "sqrt 2 < 2" "sqrt 2 \<noteq> 4 / 3"
proof -
  show "1 < sqrt 2" by simp
  show "sqrt 2 < 2" by (rule real_less_lsqrt) (simp_all add: power2_eq_square)
  have "(4 / 3 :: real)\<^sup>2 < 2" by (simp add: power2_eq_square)
  then have "4 / 3 < sqrt 2" by (rule real_less_rsqrt)
  then show "sqrt 2 \<noteq> 4 / 3" by simp
qed

lemma py_round_upper_half:
  assumes "1 / 2 < x" "x < 1"
  shows "py_round x = 1"
proof -
  have f: "\<lfloor>x\<rfloor> = 0"
    using assms by (simp add: floor_eq_iff)
  show ?thesis
    unfolding py_round_def Let_def f using assms by simp
qed

lemma py_round_half_sqrt2: "py_round (sqrt 2 / 2) = 1"
  by (rule py_round_upper_half) (use sqrt2_bounds in simp_all)

lemma polar_origin_45:
  "polar (0, 0) (pi / 4) d = (d * (sqrt 2 / 2), d * (sqrt 2 / 2))"
  by (simp add: polar_def cos_45 sin_45)

lemma snap_origin_45: "snap_to_grid (polar (0, 0) (pi / 4) min_distance) = (3 / 100, 3 / 100)"
proof -
  have q: "fst (polar (0, 0) (pi / 4) min_distance) / grid_size = sqrt 2 / 2"
    "snd (polar (0, 0) (pi / 4) min_distance) / grid_size = sqrt 2 / 2"
    by (simp_all add: polar_origin_45 grid_size_def min_distance_def)
  show ?thesis
    unfolding snap_to_grid_def q py_round_half_sqrt2
    by (simp add: grid_size_def min_distance_def)
qed

lemma init_e_index_ok: "index_ok init_e"
  using wf_e_init by (simp add: wf_e_def)

lemma valid_s_diagonal: "fst (is_valid_position_s init_s (3 / 100, 3 / 100))"
proof -
  have "(27 / 1000 :: real)\<^sup>2 \<le> (3 / 100)\<^sup>2 + (3 / 100)\<^sup>2"
    by (simp add: power2_eq_square)
  then have "27 / 1000 \<le> sqrt ((3 / 100)\<^sup>2 + (3 / 100)\<^sup>2)"
    by (rule real_le_rsqrt)
  then have "reject_s \<le> euclid (0, 0) (3 / 100, 3 / 100)"
    by (simp add: reject_s_def min_distance_def euclid_def)
  then show ?thesis
    using init_e_index_ok
    by (simp add: init_s_eq valid_s_iff) (simp add: init_e_eq)
qed

lemma valid_s_raw: "fst (is_valid_position_s init_s (polar (0, 0) (pi / 4) min_distance))"
proof -
  have "reject_s \<le> euclid (0, 0) (polar (0, 0) (pi / 4) min_distance)"
    by (simp add: euclid_polar reject_s_def min_distance_def)
  then show ?thesis
    using init_e_index_ok
    by (simp add: init_s_eq valid_s_iff) (simp add: init_e_eq)
qed

text \<open>
  Claim C7 as worded fails for the Simcity script: from the origin at angle \<open>\<pi>/4\<close> the point
  at the first radius passes the check, yet the search returns the grid point
  \<open>(0.03, 0.03)\<close>, which is none of the points at the three radii.
\<close>

theorem C7_simcity_counterexample:
  "fst (find_valid_position_s init_s (0, 0) (pi / 4)) = Some (3 / 100, 3 / 100)
   \<and> fst (is_valid_position_s init_s (polar (0, 0) (pi / 4) min_distance))
   \<and> (3 / 100, 3 / 100)
       \<notin> set (map (polar (0, 0) (pi / 4)) (linspace min_distance (2 * min_distance) 3))"
proof -
  have "snap_to_grid (polar (0, 0) (pi / 4) (3 / 100)) = (3 / 100, 3 / 100)"
    using snap_origin_45 by (simp add: min_distance_def)
  then have "candidates_s (0, 0) (pi / 4) =
      (3 / 100, 3 / 100) # map (\<lambda>d. snap_to_grid (polar (0, 0) (pi / 4) d)) [9 / 200, 3 / 50]"
    by (simp add: candidates_s_def radii3)
  then have 1: "fst (find_valid_position_s init_s (0, 0) (pi / 4)) = Some (3 / 100, 3 / 100)"
    using valid_s_diagonal by (simp add: find_valid_position_s_eq)
  have 3: "(3 / 100, 3 / 100)
       \<notin> set (map (polar (0, 0) (pi / 4)) (linspace min_distance (2 * min_distance) 3))"
    using sqrt2_bounds by (auto simp: radii3 polar_origin_45)
  show ?thesis using 1 valid_s_raw 3 by blast
qed

subsection \<open>Distances\<close>

lemma euclid_cmod: "euclid p q = cmod (Complex (fst p - fst q) (snd p - snd q))"
  by (simp add: euclid_def cmod_def)

lemma euclid_triangle: "euclid p r \<le> euclid p q + euclid q r"
proof -
  have "Complex (fst p - fst r) (snd p - snd r)
      = Complex (fst p - fst q) (snd p - snd q) + Complex (fst q - fst r) (snd q - snd r)"
    by (simp add: complex_eq_iff)
  then show ?thesis
    unfolding euclid_cmod by (simp only: norm_triangle_ineq)
qed

lemma grid_size_pos: "0 < grid_size"
  by (simp add: grid_size_def min_distance_def)

lemma euclid_offset:
  "euclid (x + of_int a * grid_size, y + of_int b * grid_size) (x, y)
     = grid_size * sqrt (of_int (a\<^sup>2 + b\<^sup>2))"
proof -
  have "(of_int a * grid_size)\<^sup>2 + (of_int b * grid_size)\<^sup>2
      = grid_size\<^sup>2 * of_int (a\<^sup>2 + b\<^sup>2)"
    by (simp add: algebra_simps)
  then have "sqrt ((of_int a * grid_size)\<^sup>2 + (of_int b * grid_size)\<^sup>2)
      = grid_size * sqrt (of_int (a\<^sup>2 + b\<^sup>2))"
    using grid_size_pos by (simp add: real_sqrt_mult)
  then show ?thesis by (simp add: euclid_def)
qed

subsection \<open>Rounding and snapping\<close>

lemma py_round_close: "\<bar>of_int (py_round y) - y\<bar> \<le> 1 / 2"
proof -
  have "of_int \<lfloor>y\<rfloor> \<le> y" "y < of_int \<lfloor>y\<rfloor> + 1" by linarith+
  then show ?thesis
    by (auto simp: py_round_def Let_def)
qed

lemma snap_on_grid: "on_grid (snap_to_grid q)"
  unfolding on_grid_def snap_to_grid_def by blast

text \<open>A snapped candidate, seen from a base position on the grid: an integer offset close to the raw offset.\<close>

lemma snap_offset:
  assumes "on_grid pos"
  shows "\<exists>a b :: int.
      snap_to_grid (polar pos angle d)
        = (fst pos + of_int a * grid_size, snd pos + of_int b * grid_size)
      \<and> \<bar>of_int a - d / grid_size * cos angle\<bar> \<le> 1 / 2
      \<and> \<bar>of_int b - d / grid_size * sin angle\<bar> \<le> 1 / 2"
proof -
  from assms obtain A B :: int where pos: "pos = (of_int A * grid_size, of_int B * grid_size)"
    unfolding on_grid_def by blast
  let ?u = "d / grid_size * cos angle" and ?v = "d / grid_size * sin angle"
  let ?X = "py_round (of_int A + ?u)" and ?Y = "py_round (of_int B + ?v)"
  have g: "grid_size \<noteq> 0" using grid_size_pos by simp
  have fx: "fst (polar pos angle d) / grid_size = of_int A + ?u"
    using g by (simp add: polar_def pos add_divide_distrib)
  have fy: "snd (polar pos angle d) / grid_size = of_int B + ?v"
    using g by (simp add: polar_def pos add_divide_distrib)
  have s: "snap_to_grid (polar pos angle d) = (of_int ?X * grid_size, of_int ?Y * grid_size)"
    unfolding snap_to_grid_def fx fy ..
  have cx: "\<bar>of_int (?X - A) - ?u\<bar> \<le> 1 / 2"
    using py_round_close [of "of_int A + ?u"] by (simp add: algebra_simps)
  have cy: "\<bar>of_int (?Y - B) - ?v\<bar> \<le> 1 / 2"
    using py_round_close [of "of_int B + ?v"] by (simp add: algebra_simps)
  have e: "snap_to_grid (polar pos angle d)
        = (fst pos + of_int (?X - A) * grid_size, snd pos + of_int (?Y - B) * grid_size)"
    unfolding s by (simp add: pos algebra_simps)
  show ?thesis
    using e cx cy by blast
qed

subsection \<open>Integer offsets of the candidates\<close>

lemma int_sq_cases:
  fixes a :: int
  assumes "- 2 \<le> a" "a \<le> 2"
  shows "a\<^sup>2 = 0 \<or> a\<^sup>2 = 1 \<or> a\<^sup>2 = 4"
proof -
  from assms consider "a = - 2" | "a = - 1" | "a = 0" | "a = 1" | "a = 2" by linarith
  then show ?thesis by cases simp_all
qed

lemma close_int_bound:
  fixes a :: int and u :: real
  assumes "\<bar>of_int a - u\<bar> \<le> 1 / 2" "\<bar>u\<bar> \<le> of_int k"
  shows "- k \<le> a \<and> a \<le> k"
proof -
  have 1: "of_int a - u \<le> 1 / 2" "- (of_int a - u) \<le> 1 / 2"
    using assms(1) abs_le_iff by blast+
  have 2: "u \<le> of_int k" "- u \<le> of_int k"
    using assms(2) abs_le_iff by blast+
  have "of_int a < (of_int k :: real) + 1" "- (of_int k :: real) - 1 < of_int a"
    using 1 2 by linarith+
  then have "of_int a < (of_int (k + 1) :: real)" "(of_int (- k - 1) :: real) < of_int a"
    by simp_all
  then show ?thesis by (simp only: of_int_less_iff) linarith
qed

lemma abs_le_from_sq:
  fixes u :: real
  assumes "u\<^sup>2 \<le> k\<^sup>2" "0 \<le> k"
  shows "\<bar>u\<bar> \<le> k"
  using assms abs_le_square_iff [of u k] by simp

lemma offset_le5:
  fixes a b :: int and u v :: real
  assumes a: "\<bar>of_int a - u\<bar> \<le> 1 / 2" and b: "\<bar>of_int b - v\<bar> \<le> 1 / 2"
    and r: "u\<^sup>2 + v\<^sup>2 \<le> 4"
  shows "a\<^sup>2 + b\<^sup>2 \<le> 5"
proof -
  have "u\<^sup>2 \<le> 4" "v\<^sup>2 \<le> 4"
    using r zero_le_power2 [of u] zero_le_power2 [of v] by linarith+
  then have "u\<^sup>2 \<le> 2\<^sup>2" "v\<^sup>2 \<le> 2\<^sup>2"
    by simp_all
  then have u2: "\<bar>u\<bar> \<le> of_int 2" and v2: "\<bar>v\<bar> \<le> of_int 2"
    using abs_le_from_sq [of u 2] abs_le_from_sq [of v 2] by simp_all
  from close_int_bound [OF a u2] close_int_bound [OF b v2]
  have ab: "- 2 \<le> a" "a \<le> 2" "- 2 \<le> b" "b \<le> 2" by simp_all
  have corner: "\<not> (a\<^sup>2 = 4 \<and> b\<^sup>2 = 4)"
  proof
    assume c: "a\<^sup>2 = 4 \<and> b\<^sup>2 = 4"
    have "\<bar>a\<bar> = 2"
    proof -
      from ab consider "a = - 2" | "a = - 1" | "a = 0" | "a = 1" | "a = 2" by linarith
      then show ?thesis using c by cases simp_all
    qed
    moreover have "\<bar>b\<bar> = 2"
    proof -
      from ab consider "b = - 2" | "b = - 1" | "b = 0" | "b = 1" | "b = 2" by linarith
      then show ?thesis using c by cases simp_all
    qed
    ultimately have "\<bar>of_int a :: real\<bar> = 2" "\<bar>of_int b :: real\<bar> = 2"
      by (metis of_int_abs of_int_numeral)+
    then have "3 / 2 \<le> \<bar>u\<bar>" "3 / 2 \<le> \<bar>v\<bar>"
      using a b by (simp_all add: abs_if split: if_splits)
    then have "(3 / 2)\<^sup>2 \<le> u\<^sup>2" "(3 / 2)\<^sup>2 \<le> v\<^sup>2"
      using abs_le_square_iff [of "3 / 2" u] abs_le_square_iff [of "3 / 2" v] by simp_all
    then show False using r by (simp add: power2_eq_square)
  qed
  from int_sq_cases [OF ab(1,2)] int_sq_cases [OF ab(3,4)] corner
  show ?thesis by auto
qed

lemma offset_first:
  fixes a b :: int and u v :: real
  assumes a: "\<bar>of_int a - u\<bar> \<le> 1 / 2" and b: "\<bar>of_int b - v\<bar> \<le> 1 / 2"
    and r: "u\<^sup>2 + v\<^sup>2 = 1"
  shows "1 \<le> a\<^sup>2 + b\<^sup>2 \<and> a\<^sup>2 + b\<^sup>2 \<le> 2"
proof -
  have "u\<^sup>2 \<le> 1" "v\<^sup>2 \<le> 1"
    using r zero_le_power2 [of u] zero_le_power2 [of v] by linarith+
  then have "u\<^sup>2 \<le> 1\<^sup>2" "v\<^sup>2 \<le> 1\<^sup>2"
    by simp_all
  then have u1: "\<bar>u\<bar> \<le> of_int 1" and v1: "\<bar>v\<bar> \<le> of_int 1"
    using abs_le_from_sq [of u 1] abs_le_from_sq [of v 1] by simp_all
  from close_int_bound [OF a u1] close_int_bound [OF b v1]
  have ab: "- 1 \<le> a" "a \<le> 1" "- 1 \<le> b" "b \<le> 1" by simp_all
  have a01: "a\<^sup>2 = 0 \<or> a\<^sup>2 = 1"
  proof -
    from ab consider "a = - 1" | "a = 0" | "a = 1" by linarith
    then show ?thesis by cases simp_all
  qed
  have b01: "b\<^sup>2 = 0 \<or> b\<^sup>2 = 1"
  proof -
    from ab consider "b = - 1" | "b = 0" | "b = 1" by linarith
    then show ?thesis by cases simp_all
  qed
  have "\<not> (a = 0 \<and> b = 0)"
  proof
    assume "a = 0 \<and> b = 0"
    then have "\<bar>u\<bar> \<le> 1 / 2" "\<bar>v\<bar> \<le> 1 / 2" using a b by simp_all
    then have "u\<^sup>2 \<le> (1 / 2)\<^sup>2" "v\<^sup>2 \<le> (1 / 2)\<^sup>2"
      using abs_le_square_iff [of u "1 / 2"] abs_le_square_iff [of v "1 / 2"] by simp_all
    then show False using r by (simp add: power2_eq_square)
  qed
  then have "a\<^sup>2 \<noteq> 0 \<or> b\<^sup>2 \<noteq> 0" by simp
  then show ?thesis using a01 b01 by auto
qed

lemma polar_offsets_sq:
  "(d / grid_size * cos angle)\<^sup>2 + (d / grid_size * sin angle)\<^sup>2 = (d / grid_size)\<^sup>2"
proof -
  have "(d / grid_size * cos angle)\<^sup>2 + (d / grid_size * sin angle)\<^sup>2
      = (d / grid_size)\<^sup>2 * ((cos angle)\<^sup>2 + (sin angle)\<^sup>2)"
    by (simp only: power_mult_distrib distrib_left)
  then show ?thesis by simp
qed

subsection \<open>How far one call can reach (enhance script)\<close>

lemma all_within_mono: "all_within r ps \<Longrightarrow> r \<le> r' \<Longrightarrow> all_within r' ps"
  by (auto simp: all_within_def)

lemma all_within_snoc: "all_within r ps \<Longrightarrow> euclid p (0, 0) \<le> r \<Longrightarrow> all_within r (ps @ [p])"
  by (auto simp: all_within_def)

lemma candidates_e_near:
  assumes "c \<in> set (candidates_e pos angle)"
  shows "euclid c pos \<le> 2 * min_distance"
proof -
  from assms obtain d where d: "d \<in> set (linspace min_distance (2 * min_distance) 5)"
    and c: "c = polar pos angle d"
    by (auto simp: candidates_e_def)
  have "\<forall>d \<in> set (linspace min_distance (2 * min_distance) 5). \<bar>d\<bar> \<le> 2 * min_distance"
    unfolding radii5 by (simp add: min_distance_def)
  with d have "\<bar>d\<bar> \<le> 2 * min_distance" by blast
  then show ?thesis by (simp add: c euclid_polar')
qed

lemma attempt_e_nodes:
  assumes "attempt_e node_id pos angle s = Inr s'"
  shows "node_positions s' = node_positions s
       \<or> (\<exists>p \<in> set (candidates_e pos angle). node_positions s' = node_positions s @ [p])"
proof (cases "find (\<lambda>p. fst (is_valid_position_e s p)) (candidates_e pos angle)")
  case None
  then show ?thesis using assms by (auto simp: attempt_e_def find_valid_position_e_eq)
next
  case (Some p)
  then have p: "p \<in> set (candidates_e pos angle)" by (auto simp: find_Some_iff)
  from Some assms obtain tree where
    s': "s' = merge_or_create_e (refresh s) node_id p tree"
    by (auto simp: attempt_e_def find_valid_position_e_eq Let_def split: option.splits)
  obtain r s1 where a: "add_node_e (refresh s) p = (r, s1)" by (cases "add_node_e (refresh s) p")
  have n1: "node_positions s1 = node_positions s \<or> node_positions s1 = node_positions s @ [p]"
  proof (cases r)
    case None
    then show ?thesis using a add_node_e_None [of "refresh s" p s1] by simp
  next
    case (Some i)
    then show ?thesis using a add_node_e_Some [of "refresh s" p i s1] by simp
  qed
  have rd: "node_positions (add_road t x y) = node_positions t" for t :: city_e and x y
    using add_road_cases [of t x y] by auto
  have "node_positions s' = node_positions s \<or> node_positions s' = node_positions s @ [p]"
    using n1 a rd unfolding s' merge_or_create_e_def
    by (auto simp: Let_def split: option.splits prod.splits)
  then show ?thesis using p by blast
qed

lemma all_within_attempt_e:
  assumes "attempt_e node_id pos angle s = Inr s'" "all_within r (node_positions s)"
    "euclid pos (0, 0) + 2 * min_distance \<le> r"
  shows "all_within r (node_positions s')"
proof -
  from attempt_e_nodes [OF assms(1)] consider "node_positions s' = node_positions s"
    | p where "p \<in> set (candidates_e pos angle)" "node_positions s' = node_positions s @ [p]"
    by blast
  then show ?thesis
  proof cases
    case 1
    then show ?thesis using assms(2) by simp
  next
    case 2
    have "euclid p (0, 0) \<le> euclid p pos + euclid pos (0, 0)" by (rule euclid_triangle)
    also have "\<dots> \<le> r" using candidates_e_near [OF 2(1)] assms(3) by linarith
    finally show ?thesis using 2(2) all_within_snoc [OF assms(2)] by simp
  qed
qed

lemma all_within_attempts_e:
  assumes "attempts_e node_id pos as s = Inr s'" "all_within r (node_positions s)"
    "euclid pos (0, 0) + 2 * min_distance \<le> r"
  shows "all_within r (node_positions s')"
  using assms
proof (induction as arbitrary: s)
  case Nil
  then show ?case by simp
next
  case (Cons a as)
  then obtain s1 where 1: "attempt_e node_id pos a s = Inr s1"
    and 2: "attempts_e node_id pos as s1 = Inr s'"
    by (auto split: sum.splits)
  from Cons.IH [OF 2 all_within_attempt_e [OF 1 Cons.prems(2,3)] Cons.prems(3)] show ?case .
qed

lemma all_within_grow_city_e:
  assumes "grow_city_e s d = Inr s'" "all_within r (node_positions s)"
  shows "all_within (r + 2 * min_distance) (node_positions s')"
proof (cases "growth_queue s = []")
  case True
  then have "node_positions s' = node_positions s"
    using assms(1) by (auto simp: grow_city_e_empty split: if_splits)
  then show ?thesis using all_within_mono [OF assms(2)] min_distance_pos by simp
next
  case False
  let ?i = "hd (growth_queue s)"
  from False assms(1) have i: "?i < length (node_positions s)"
    and a: "attempts_e ?i (node_positions s ! ?i)
      (map (angles d) [0..<rng_integers 1 4 (count d)]) (popped s) = Inr s'"
    by (auto simp: grow_city_e_pop split: if_splits)
  have "euclid (node_positions s ! ?i) (0, 0) \<le> r"
    using assms(2) i by (simp add: all_within_def)
  moreover have "all_within (r + 2 * min_distance) (node_positions (popped s))"
    using all_within_mono [OF assms(2)] min_distance_pos by (simp add: popped_def)
  ultimately show ?thesis
    using all_within_attempts_e [OF a] by simp
qed

lemma all_within_run_e:
  assumes "run_e s ds = Inr s'" "all_within r (node_positions s)"
  shows "all_within (r + real (length ds) * (2 * min_distance)) (node_positions s')"
  using assms
proof (induction ds arbitrary: s r)
  case Nil
  then show ?case by simp
next
  case (Cons d ds)
  then obtain s1 where 1: "grow_city_e s d = Inr s1" and 2: "run_e s1 ds = Inr s'"
    by (auto split: sum.splits)
  from Cons.IH [OF 2 all_within_grow_city_e [OF 1 Cons.prems(2)]]
  show ?case by (simp add: algebra_simps)
qed

lemma all_within_init_e: "all_within 0 (node_positions init_e)"
  by (simp add: all_within_def init_e_eq)

subsection \<open>The candidates of the Simcity script on the grid\<close>

lemma grid_apart:
  assumes "on_grid p" "on_grid q" "p \<noteq> q"
  shows "grid_size \<le> euclid p q"
proof -
  from assms(1) obtain a b :: int where p: "p = (of_int a * grid_size, of_int b * grid_size)"
    unfolding on_grid_def by blast
  from assms(2) obtain c d :: int where q: "q = (of_int c * grid_size, of_int d * grid_size)"
    unfolding on_grid_def by blast
  have e: "p = (fst q + of_int (a - c) * grid_size, snd q + of_int (b - d) * grid_size)"
    by (simp add: p q algebra_simps)
  have "a - c \<noteq> 0 \<or> b - d \<noteq> 0" using assms(3) p q by auto
  then have "0 < (a - c)\<^sup>2 + (b - d)\<^sup>2"
    using zero_le_power2 [of "a - c"] zero_le_power2 [of "b - d"]
      zero_less_power2 [of "a - c"] zero_less_power2 [of "b - d"] by linarith
  then have "1 \<le> (a - c)\<^sup>2 + (b - d)\<^sup>2"
    by linarith
  then have "(1 :: real) \<le> of_int ((a - c)\<^sup>2 + (b - d)\<^sup>2)"
    by linarith
  then have "1 \<le> sqrt (of_int ((a - c)\<^sup>2 + (b - d)\<^sup>2))"
    by (simp only: real_sqrt_ge_1_iff)
  then have "grid_size * 1 \<le> grid_size * sqrt (of_int ((a - c)\<^sup>2 + (b - d)\<^sup>2))"
    using grid_size_pos by (simp only: mult_le_cancel_left_pos)
  then show ?thesis
    using euclid_offset [of "fst q" "a - c" "snd q" "b - d"] e by simp
qed

lemma candidates_s_step:
  assumes "on_grid pos" "c \<in> set (candidates_s pos angle)"
  shows "on_grid c \<and> euclid c pos \<le> grid_size * sqrt 5"
proof -
  from assms(2) obtain d where d: "d \<in> set (linspace min_distance (2 * min_distance) 3)"
    and c: "c = snap_to_grid (polar pos angle d)"
    by (auto simp: candidates_s_def)
  have d4: "\<forall>d \<in> set (linspace min_distance (2 * min_distance) 3). (d / grid_size)\<^sup>2 \<le> 4"
    unfolding radii3 by (simp add: grid_size_def min_distance_def power2_eq_square)
  from snap_offset [OF assms(1), of angle d] obtain a b :: int where
    s: "snap_to_grid (polar pos angle d)
        = (fst pos + of_int a * grid_size, snd pos + of_int b * grid_size)"
    and a: "\<bar>of_int a - d / grid_size * cos angle\<bar> \<le> 1 / 2"
    and b: "\<bar>of_int b - d / grid_size * sin angle\<bar> \<le> 1 / 2"
    by blast
  from d d4 have "(d / grid_size)\<^sup>2 \<le> 4"
    by blast
  then have "(d / grid_size * cos angle)\<^sup>2 + (d / grid_size * sin angle)\<^sup>2 \<le> 4"
    by (simp only: polar_offsets_sq)
  from offset_le5 [OF a b this] have "a\<^sup>2 + b\<^sup>2 \<le> 5" .
  then have "(of_int (a\<^sup>2 + b\<^sup>2) :: real) \<le> 5" by linarith
  then have "sqrt (of_int (a\<^sup>2 + b\<^sup>2)) \<le> sqrt 5"
    by (simp only: real_sqrt_le_iff)
  then have "grid_size * sqrt (of_int (a\<^sup>2 + b\<^sup>2)) \<le> grid_size * sqrt 5"
    using grid_size_pos by (simp only: mult_le_cancel_left_pos)
  then have "euclid c pos \<le> grid_size * sqrt 5"
    using euclid_offset [of "fst pos" a "snd pos" b] s c by simp
  then show ?thesis using c snap_on_grid by simp
qed

lemma candidates_s_first:
  assumes "on_grid pos"
  shows "euclid (hd (candidates_s pos angle)) pos \<le> grid_size * sqrt 2
       \<and> hd (candidates_s pos angle) \<noteq> pos"
proof -
  let ?c = "snap_to_grid (polar pos angle (3 / 100))"
  have h: "hd (candidates_s pos angle) = ?c"
    by (simp add: candidates_s_def radii3)
  from snap_offset [OF assms(1), of angle "3 / 100"] obtain a b :: int where
    s: "?c = (fst pos + of_int a * grid_size, snd pos + of_int b * grid_size)"
    and a: "\<bar>of_int a - 3 / 100 / grid_size * cos angle\<bar> \<le> 1 / 2"
    and b: "\<bar>of_int b - 3 / 100 / grid_size * sin angle\<bar> \<le> 1 / 2"
    by blast
  have "(3 / 100 / grid_size)\<^sup>2 = 1"
    by (simp add: grid_size_def min_distance_def)
  then have "(3 / 100 / grid_size * cos angle)\<^sup>2 + (3 / 100 / grid_size * sin angle)\<^sup>2 = 1"
    by (simp only: polar_offsets_sq)
  from offset_first [OF a b this] have ab: "1 \<le> a\<^sup>2 + b\<^sup>2" "a\<^sup>2 + b\<^sup>2 \<le> 2" by simp_all
  have e: "euclid ?c pos = grid_size * sqrt (of_int (a\<^sup>2 + b\<^sup>2))"
    using euclid_offset [of "fst pos" a "snd pos" b] s by simp
  have "(of_int (a\<^sup>2 + b\<^sup>2) :: real) \<le> 2" using ab(2) by linarith
  then have "sqrt (of_int (a\<^sup>2 + b\<^sup>2)) \<le> sqrt 2"
    by (simp only: real_sqrt_le_iff)
  then have 1: "euclid ?c pos \<le> grid_size * sqrt 2"
    unfolding e using grid_size_pos by (simp only: mult_le_cancel_left_pos)
  have "(1 :: real) \<le> of_int (a\<^sup>2 + b\<^sup>2)" using ab(1) by linarith
  then have "1 \<le> sqrt (of_int (a\<^sup>2 + b\<^sup>2))"
    by (simp only: real_sqrt_ge_1_iff)
  then have "0 < euclid ?c pos"
    unfolding e using grid_size_pos by (simp add: zero_less_mult_iff)
  then have 2: "?c \<noteq> pos" by auto
  show ?thesis using 1 2 h by simp
qed

subsection \<open>How far the Simcity script can reach\<close>

lemma sqrt5_bounds: "2 < sqrt 5" "sqrt 5 < 56 / 25"
proof -
  have "(2 :: real)\<^sup>2 < 5" by simp
  then show "2 < sqrt 5" by (rule real_less_rsqrt)
  show "sqrt 5 < 56 / 25" by (rule real_less_lsqrt) (simp_all add: power2_eq_square)
qed

lemma sqrt2_upper: "sqrt 2 < 71 / 50"
  by (rule real_less_lsqrt) (simp_all add: power2_eq_square)

lemma geo_ok_weak:
  assumes "geo_ok ps" "j < length ps"
  shows "euclid (ps ! j) (0, 0) \<le> 2 * real j * grid_size"
proof (cases "j = 0")
  case True
  then show ?thesis using assms(1) by (simp add: geo_ok_def)
next
  case False
  then have "euclid (ps ! j) (0, 0) \<le> (2 * real j - (sqrt 5 - 2)) * grid_size"
    using assms by (simp add: geo_ok_def)
  also have "\<dots> \<le> 2 * real j * grid_size"
    using sqrt5_bounds(1) grid_size_pos by (simp add: mult_le_cancel_right)
  finally show ?thesis .
qed

lemma geo_ok_parent:
  assumes "geo_ok ps" "i < length ps"
  shows "euclid (ps ! i) (0, 0) \<le> (if i = 0 then 0 else 2 * real i - (sqrt 5 - 2)) * grid_size"
  using assms by (auto simp: geo_ok_def)

lemma blocked_is_node:
  assumes "index_ok s" "\<forall>q \<in> set (node_positions s). on_grid q" "on_grid c"
    "\<not> fst (is_valid_position_s s c)"
  shows "c \<in> set (node_positions s)"
proof -
  from assms(1,4) obtain q where q: "q \<in> set (node_positions s)" "\<not> reject_s \<le> euclid q c"
    by (auto simp: valid_s_iff)
  have "reject_s < grid_size" by (simp add: reject_s_def grid_size_def min_distance_def)
  then have "\<not> grid_size \<le> euclid q c" using q(2) by linarith
  then have "q = c" using grid_apart [of q c] q(1) assms(2,3) by blast
  then show ?thesis using q(1) by simp
qed

text \<open>The new node of a successful search from node \<open>i\<close>: the id-indexed bound and the bound by the parent.\<close>

lemma geo_new_node:
  assumes io: "index_ok t" and geo: "geo_ok (node_positions t)"
    and i: "i < length (node_positions t)"
    and f: "find (\<lambda>p. fst (is_valid_position_s t p)) (candidates_s (node_positions t ! i) angle) = Some p"
  shows "on_grid p"
    and "euclid p (0, 0) \<le> (if i = 0 then sqrt 5 else 2 * real i + 2) * grid_size"
    and "euclid p (0, 0) \<le> (2 * real (length (node_positions t)) - (sqrt 5 - 2)) * grid_size"
proof -
  let ?ps = "node_positions t"
  let ?pos = "?ps ! i"
  let ?cs = "candidates_s ?pos angle"
  let ?N = "length ?ps"
  let ?g = "grid_size"
  have g: "0 < ?g" by (rule grid_size_pos)
  have grid: "\<forall>q \<in> set ?ps. on_grid q" using geo by (simp add: geo_ok_def)
  have pos_grid: "on_grid ?pos" using grid i by simp
  from f obtain k where k: "k < length ?cs" "fst (is_valid_position_s t (?cs ! k))" "p = ?cs ! k"
    "\<forall>j < k. \<not> fst (is_valid_position_s t (?cs ! j))"
    by (auto simp: find_Some_iff)
  have pc: "p \<in> set ?cs" using k(1,3) by simp
  from candidates_s_step [OF pos_grid pc] have pg: "on_grid p"
    and step: "euclid p ?pos \<le> ?g * sqrt 5" by simp_all
  show "on_grid p" by (rule pg)
  have tri: "euclid p (0, 0) \<le> euclid p ?pos + euclid ?pos (0, 0)" by (rule euclid_triangle)
  have par: "euclid ?pos (0, 0) \<le> (if i = 0 then 0 else 2 * real i - (sqrt 5 - 2)) * ?g"
    using geo_ok_parent [OF geo i] .
  show b2: "euclid p (0, 0) \<le> (if i = 0 then sqrt 5 else 2 * real i + 2) * ?g"
  proof (cases "i = 0")
    case True
    then show ?thesis using tri step par by (simp add: mult.commute)
  next
    case False
    have "euclid p (0, 0) \<le> ?g * sqrt 5 + (2 * real i - (sqrt 5 - 2)) * ?g"
      using tri step par False by simp
    also have "\<dots> = (2 * real i + 2) * ?g" by (simp add: algebra_simps)
    finally show ?thesis using False by simp
  qed
  show "euclid p (0, 0) \<le> (2 * real ?N - (sqrt 5 - 2)) * ?g"
  proof (cases "i + 2 \<le> ?N")
    case True
    have "(if i = 0 then sqrt 5 else 2 * real i + 2) \<le> 2 * real ?N - (sqrt 5 - 2)"
    proof (cases "i = 0")
      case True
      have "4 \<le> 2 * real ?N" using \<open>i + 2 \<le> ?N\<close> True by simp
      then show ?thesis using True sqrt5_bounds by simp
    next
      case False
      have "2 * real i + 4 \<le> 2 * real ?N" using \<open>i + 2 \<le> ?N\<close> by simp
      then show ?thesis using False sqrt5_bounds by simp
    qed
    then have "(if i = 0 then sqrt 5 else 2 * real i + 2) * ?g \<le> (2 * real ?N - (sqrt 5 - 2)) * ?g"
      using g by (simp only: mult_le_cancel_right_pos)
    then show ?thesis using b2 by linarith
  next
    case False
    then have iN: "?N = i + 1" using i by linarith
    show ?thesis
    proof (cases "k = 0")
      case True
      then have "p = hd ?cs" using k(1,3) by (simp add: hd_conv_nth)
      then have s2: "euclid p ?pos \<le> ?g * sqrt 2"
        using candidates_s_first [OF pos_grid, of angle] by simp
      have "euclid p (0, 0) \<le> ?g * sqrt 2 + (if i = 0 then 0 else 2 * real i - (sqrt 5 - 2)) * ?g"
        using tri s2 par by linarith
      also have "\<dots> \<le> (2 * real ?N - (sqrt 5 - 2)) * ?g"
      proof -
        have "sqrt 2 + (if i = 0 then 0 else 2 * real i - (sqrt 5 - 2))
            \<le> 2 * real ?N - (sqrt 5 - 2)"
          using iN sqrt5_bounds sqrt2_upper by (simp split: if_splits)
        then have "(sqrt 2 + (if i = 0 then 0 else 2 * real i - (sqrt 5 - 2))) * ?g
            \<le> (2 * real ?N - (sqrt 5 - 2)) * ?g"
          using g by (simp only: mult_le_cancel_right_pos)
        then show ?thesis by (simp add: algebra_simps)
      qed
      finally show ?thesis .
    next
      case False
      let ?c1 = "hd ?cs"
      have c1: "?c1 = ?cs ! 0" using k(1) by (simp add: hd_conv_nth)
      then have inv1: "\<not> fst (is_valid_position_s t ?c1)" using k(4) False by simp
      have c1s: "?c1 \<in> set ?cs" using k(1) c1 by (metis less_nat_zero_code list.set_sel(1) list.size(3))
      have c1g: "on_grid ?c1" using candidates_s_step [OF pos_grid c1s] by simp
      from blocked_is_node [OF io grid c1g inv1] obtain m where
        m: "m < ?N" "?ps ! m = ?c1" by (auto simp: in_set_conv_nth)
      have ne: "?c1 \<noteq> ?pos" and near: "euclid ?c1 ?pos \<le> ?g * sqrt 2"
        using candidates_s_first [OF pos_grid, of angle] by simp_all
      have "m \<noteq> i" using m(2) ne by auto
      then have mi: "m + 1 \<le> i" using m(1) iN by linarith
      have "euclid ?c1 (0, 0) \<le> 2 * real m * ?g"
        using geo_ok_weak [OF geo m(1)] m(2) by simp
      also have "\<dots> \<le> (2 * real i - 2) * ?g"
      proof -
        have "2 * real m \<le> 2 * real i - 2" using mi by simp
        then show ?thesis using g by (simp only: mult_le_cancel_right_pos)
      qed
      finally have cb: "euclid ?c1 (0, 0) \<le> (2 * real i - 2) * ?g" .
      have "euclid ?pos (0, 0) \<le> euclid ?pos ?c1 + euclid ?c1 (0, 0)" by (rule euclid_triangle)
      then have pb: "euclid ?pos (0, 0) \<le> ?g * sqrt 2 + (2 * real i - 2) * ?g"
        using near cb by (simp add: euclid_commute [of ?pos])
      have "euclid p (0, 0) \<le> ?g * sqrt 5 + (?g * sqrt 2 + (2 * real i - 2) * ?g)"
        using tri step pb by linarith
      also have "\<dots> = (sqrt 5 + sqrt 2 + 2 * real i - 2) * ?g" by (simp add: algebra_simps)
      also have "\<dots> \<le> (2 * real ?N - (sqrt 5 - 2)) * ?g"
      proof -
        have "sqrt 5 + sqrt 2 + 2 * real i - 2 \<le> 2 * real ?N - (sqrt 5 - 2)"
          using iN sqrt5_bounds sqrt2_upper by simp
        then show ?thesis using g by (simp only: mult_le_cancel_right_pos)
      qed
      finally show ?thesis .
    qed
  qed
qed

lemma geo_ok_snoc:
  assumes "geo_ok ps" "on_grid p"
    "euclid p (0, 0) \<le> (2 * real (length ps) - (sqrt 5 - 2)) * grid_size"
  shows "geo_ok (ps @ [p])"
proof -
  have "euclid ((ps @ [p]) ! j) (0, 0) \<le> (2 * real j - (sqrt 5 - 2)) * grid_size"
    if "j < length (ps @ [p])" "1 \<le> j" for j
  proof (cases "j < length ps")
    case True
    then show ?thesis using assms(1) that(2) by (simp add: geo_ok_def nth_append)
  next
    case False
    then have "j = length ps" using that(1) by simp
    then show ?thesis using assms(3) by simp
  qed
  then show ?thesis
    using assms(1,2) by (auto simp: geo_ok_def nth_append)
qed

lemma reach_bound_mono: "reach_bound n \<le> reach_bound (Suc n)"
proof -
  have "max (2 * real n) (sqrt 5) \<le> max (2 * real (Suc n)) (sqrt 5)" by auto
  then show ?thesis
    unfolding reach_bound_def using grid_size_pos by (simp only: mult_le_cancel_right_pos)
qed

lemma reach_bound_new:
  assumes "i \<le> n"
  shows "(if i = 0 then sqrt 5 else 2 * real i + 2) * grid_size \<le> reach_bound (Suc n)"
proof -
  have "(if i = 0 then sqrt 5 else 2 * real i + 2) \<le> max (2 * real (Suc n)) (sqrt 5)"
    using assms by auto
  then show ?thesis
    unfolding reach_bound_def using grid_size_pos by (simp only: mult_le_cancel_right_pos)
qed

lemma inv_attempt_s:
  assumes w: "wf_s t" and geo: "geo_ok (node_positions t)"
    and i: "i < length (node_positions t)" and le: "i \<le> n"
    and b: "all_within (reach_bound (Suc n)) (node_positions t)"
  shows "\<exists>t'. attempt_s i (node_positions t ! i) angle t = Inr t' \<and> wf_s t'
            \<and> geo_ok (node_positions t')
            \<and> all_within (reach_bound (Suc n)) (node_positions t')
            \<and> length (node_positions t) \<le> length (node_positions t')
            \<and> node_positions t' ! i = node_positions t ! i"
proof -
  let ?pos = "node_positions t ! i"
  from w have io: "index_ok t" and r: "roads_ok t" by (simp_all add: wf_s_def)
  note eq = attempt_s_eq [OF io r i, of ?pos angle]
  show ?thesis
  proof (cases "find (\<lambda>p. fst (is_valid_position_s t p)) (candidates_s ?pos angle)")
    case None
    then show ?thesis
      using eq wf_s_refresh [OF w] geo b by simp
  next
    case (Some p)
    then have v: "fst (is_valid_position_s t p)" by (auto simp: find_Some_iff)
    note n = geo_new_node [OF io geo i Some]
    have n1: "node_positions (created t i p) = node_positions t @ [p]"
      by (simp add: created_def)
    have 1: "wf_s (created t i p)" using wf_s_created [OF w i v] .
    have 2: "geo_ok (node_positions (created t i p))"
      unfolding n1 using geo_ok_snoc [OF geo n(1) n(3)] .
    have "euclid p (0, 0) \<le> reach_bound (Suc n)"
      using n(2) reach_bound_new [OF le] by linarith
    then have 3: "all_within (reach_bound (Suc n)) (node_positions (created t i p))"
      unfolding n1 using all_within_snoc [OF b] by simp
    have 4: "node_positions (created t i p) ! i = ?pos"
      unfolding n1 using i by (simp add: nth_append)
    show ?thesis
      using eq Some 1 2 3 4 n1 by simp
  qed
qed

lemma inv_attempts_s:
  assumes "wf_s t" "geo_ok (node_positions t)" "i < length (node_positions t)" "i \<le> n"
    "all_within (reach_bound (Suc n)) (node_positions t)" "pos = node_positions t ! i"
  shows "\<exists>t'. attempts_s i pos as t = Inr t' \<and> wf_s t' \<and> geo_ok (node_positions t')
            \<and> all_within (reach_bound (Suc n)) (node_positions t')"
  using assms
proof (induction as arbitrary: t)
  case Nil
  then show ?case by simp
next
  case (Cons a as)
  from inv_attempt_s [OF Cons.prems(1-5), of a] obtain t1 where
    1: "attempt_s i (node_positions t ! i) a t = Inr t1" "wf_s t1" "geo_ok (node_positions t1)"
      "all_within (reach_bound (Suc n)) (node_positions t1)"
      "length (node_positions t) \<le> length (node_positions t1)"
      "node_positions t1 ! i = node_positions t ! i"
    by blast
  have i1: "i < length (node_positions t1)" using Cons.prems(3) 1(5) by simp
  have p1: "pos = node_positions t1 ! i" using Cons.prems(6) 1(6) by simp
  from Cons.IH [OF 1(2,3) i1 Cons.prems(4) 1(4) p1] show ?case
    using 1(1) Cons.prems(6) by simp
qed

lemma sched_ok_step:
  assumes s: "sched_ok n s" and q: "growth_queue s \<noteq> []" and e: "extends_e (popped s) s' a b"
  shows "sched_ok (Suc n) s'"
proof -
  let ?N = "length (node_positions s)"
  let ?q = "growth_queue s"
  from e obtain new where new: "node_positions s' = node_positions s @ new"
    "growth_queue s' = tl ?q @ [?N..<?N + length new]"
    unfolding extends_e_def by (auto simp: popped_def)
  have lq: "length (tl ?q) + 1 = length ?q" using q by (cases ?q) simp_all
  have N: "?N \<le> n + length ?q" using s by (simp add: sched_ok_def)
  have 1: "length (node_positions s') \<le> Suc n + length (growth_queue s')"
    using new N lq by simp
  have 2: "growth_queue s' ! k \<le> Suc n + k" if k: "k < length (growth_queue s')" for k
  proof (cases "k < length (tl ?q)")
    case True
    then have "growth_queue s' ! k = ?q ! Suc k"
      using new(2) by (simp add: nth_append nth_tl)
    moreover have "Suc k < length ?q" using True lq by simp
    then have "?q ! Suc k \<le> n + Suc k"
      using s unfolding sched_ok_def by blast
    ultimately show ?thesis by simp
  next
    case False
    then have "growth_queue s' ! k = ?N + (k - length (tl ?q))"
      using new(2) k by (simp add: nth_append)
    then show ?thesis using N lq False by linarith
  qed
  show ?thesis using 1 2 by (simp add: sched_ok_def)
qed

lemma inv_grow_city_s:
  assumes "inv_s n s"
  shows "\<exists>s'. grow_city_s s d = Inr s' \<and> inv_s (Suc n) s'"
proof -
  from assms have w: "wf_s s" and geo: "geo_ok (node_positions s)" and sc: "sched_ok n s"
    and b: "all_within (reach_bound n) (node_positions s)"
    by (simp_all add: inv_s_def)
  have b': "all_within (reach_bound (Suc n)) (node_positions s)"
    using all_within_mono [OF b reach_bound_mono] .
  show ?thesis
  proof (cases "growth_queue s = []")
    case True
    have ne: "node_positions s \<noteq> []" using geo by (simp add: geo_ok_def)
    let ?r = "rng_integers 0 (length (node_positions s)) (pick d)"
    let ?s' = "s\<lparr>growth_queue := [?r]\<rparr>"
    have r: "?r < length (node_positions s)" using ne by (simp add: rng_integers_0)
    have N: "length (node_positions s) \<le> n" using sc True by (simp add: sched_ok_def)
    have 1: "wf_s ?s'"
      using w r by (simp add: wf_s_def index_ok_def queue_ok_def roads_ok_def roads_canonical_def)
    have 2: "sched_ok (Suc n) ?s'" using N r by (simp add: sched_ok_def)
    have "inv_s (Suc n) ?s'" using 1 2 geo b' by (simp add: inv_s_def)
    then show ?thesis using True ne by (simp add: grow_city_s_empty)
  next
    case False
    let ?i = "hd (growth_queue s)"
    have i: "?i < length (node_positions s)"
      using w False by (simp add: wf_s_def queue_ok_def)
    have "0 < length (growth_queue s)" using False by simp
    then have "growth_queue s ! 0 \<le> n + 0"
      using sc unfolding sched_ok_def by blast
    then have le: "?i \<le> n" using False by (simp add: hd_conv_nth)
    have np: "node_positions (popped s) = node_positions s" by (simp add: popped_def)
    from inv_attempts_s [of "popped s" ?i n "node_positions s ! ?i"
        "map (angle_s d) [0..<rng_integers 1 4 (count d)]"]
    obtain s' where s': "attempts_s ?i (node_positions s ! ?i)
          (map (angle_s d) [0..<rng_integers 1 4 (count d)]) (popped s) = Inr s'"
      "wf_s s'" "geo_ok (node_positions s')" "all_within (reach_bound (Suc n)) (node_positions s')"
      using wf_s_popped [OF w] geo i le b' np by auto
    have g: "grow_city_s s d = Inr s'"
      using False i s'(1) by (simp add: grow_city_s_pop)
    have "sched_ok (Suc n) s'"
      using sched_ok_step [OF sc False grow_city_s_extends [OF False g]] .
    then show ?thesis using g s'(2-4) by (simp add: inv_s_def)
  qed
qed

lemma inv_run_s:
  assumes "inv_s n s"
  shows "\<exists>s'. run_s s ds = Inr s' \<and> inv_s (n + length ds) s'"
  using assms
proof (induction ds arbitrary: n s)
  case Nil
  then show ?case by simp
next
  case (Cons d ds)
  from inv_grow_city_s [OF Cons.prems, of d] obtain s1 where
    1: "grow_city_s s d = Inr s1" "inv_s (Suc n) s1" by blast
  from Cons.IH [OF 1(2)] show ?case using 1(1) by simp
qed

lemma inv_s_init: "inv_s 0 init_s"
proof -
  have "on_grid (0, 0)"
    unfolding on_grid_def by (intro exI [of _ 0]) simp
  then have "geo_ok (node_positions init_s)"
    by (simp add: geo_ok_def init_s_eq init_e_eq)
  moreover have "sched_ok 0 init_s"
    by (simp add: sched_ok_def init_s_eq init_e_eq)
  moreover have "all_within (reach_bound 0) (node_positions init_s)"
    using grid_size_pos by (simp add: all_within_def init_s_eq init_e_eq reach_bound_def)
  ultimately show ?thesis using wf_s_init by (simp add: inv_s_def)
qed

lemma reach_bound_200: "reach_bound 200 = 200 * 2 * min_distance"
proof -
  have "max (2 * real 200) (sqrt 5) = 400" using sqrt5_bounds by simp
  then show ?thesis by (simp add: reach_bound_def grid_size_def)
qed

text \<open>
  Claim C9. From the fresh state (the origin only), every sequence of exactly 200 calls of
  \<open>grow_city\<close> returns, whatever the draws, and afterwards every node lies within
  \<open>200 * 2 * min_distance\<close> of the origin. Shown for the enhance script, where a node is at
  most \<open>2 * min_distance\<close> from its parent, and for the Simcity script, where snapping can
  put a node up to \<open>sqrt 5 * min_distance\<close> from its parent and the bound rests on the order
  in which the queue serves the nodes.
\<close>

theorem C9_reach_after_200:
  "length ds = 200 \<longrightarrow>
     (\<exists>s. run_e init_e ds = Inr s
        \<and> (\<forall>p \<in> set (node_positions s). euclid p (0, 0) \<le> 200 * 2 * min_distance))
     \<and> (\<exists>s. run_s init_s ds = Inr s
        \<and> (\<forall>p \<in> set (node_positions s). euclid p (0, 0) \<le> 200 * 2 * min_distance))"
proof (intro impI conjI)
  assume l: "length ds = 200"
  from reach_e_run [OF reach_e_init, of ds] obtain s where s: "run_e init_e ds = Inr s" by blast
  from all_within_run_e [OF s all_within_init_e]
  have "all_within (200 * 2 * min_distance) (node_positions s)" using l by simp
  then show "\<exists>s. run_e init_e ds = Inr s
        \<and> (\<forall>p \<in> set (node_positions s). euclid p (0, 0) \<le> 200 * 2 * min_distance)"
    using s unfolding all_within_def by blast
  from inv_run_s [OF inv_s_init, of ds] obtain t where
    t: "run_s init_s ds = Inr t" "inv_s (0 + length ds) t" by blast
  then have "all_within (reach_bound 200) (node_positions t)" using l by (simp add: inv_s_def)
  then show "\<exists>s. run_s init_s ds = Inr s
        \<and> (\<forall>p \<in> set (node_positions s). euclid p (0, 0) \<le> 200 * 2 * min_distance)"
    using t(1) unfolding all_within_def reach_bound_200 by blast
qed

theorem C9_reach_after_200_witness:
  "length (replicate 200 (fixed_draws 0 0 0)) = 200
   \<and> (\<exists>s. run_e init_e (replicate 200 (fixed_draws 0 0 0)) = Inr s \<and> node_positions s \<noteq> []
         \<and> euclid (hd (node_positions s)) (0, 0) \<le> 200 * 2 * min_distance)
   \<and> (\<exists>s. run_s init_s (replicate 200 (fixed_draws 0 0 0)) = Inr s \<and> node_positions s \<noteq> []
         \<and> euclid (hd (node_positions s)) (0, 0) \<le> 200 * 2 * min_distance)"
proof -
  let ?ds = "replicate 200 (fixed_draws 0 0 0)"
  have l: "length ?ds = 200" by simp
  note c = C9_reach_after_200 [of ?ds]
  from c l obtain s where s: "run_e init_e ?ds = Inr s"
    "\<forall>p \<in> set (node_positions s). euclid p (0, 0) \<le> 200 * 2 * min_distance" by blast
  from c l obtain t where t: "run_s init_s ?ds = Inr t"
    "\<forall>p \<in> set (node_positions t). euclid p (0, 0) \<le> 200 * 2 * min_distance" by blast
  from reach_e_run [OF reach_e_init, of ?ds] s(1) have "reach_e s" by simp
  then have ns: "node_positions s \<noteq> []" using reach_e_wf by (auto simp: wf_e_def index_ok_def)
  from reach_s_run [OF reach_s_init, of ?ds] t(1) have "reach_s t" by simp
  then have nt: "node_positions t \<noteq> []" using reach_s_wf by (auto simp: wf_s_def index_ok_def)
  have "euclid (hd (node_positions s)) (0, 0) \<le> 200 * 2 * min_distance"
    using s(2) ns by simp
  moreover have "euclid (hd (node_positions t)) (0, 0) \<le> 200 * 2 * min_distance"
    using t(2) nt by simp
  ultimately show ?thesis using l s(1) t(1) ns nt by blast
qed

end
